theory Spec2Isabelle
  imports Main "HOL-Library.Sublist"
begin

section \<open>The values the solver computes with\<close>

text \<open>
  \<^verbatim>\<open>solveKnapsack\<close> (src/src/KnapsackOpenHouse.tsx, lines 29-55) works on JavaScript
  numbers, which are IEEE doubles. The inputs of this development are integers, and
  every number the solver computes from integers is an integer-valued double or an
  infinity; \<open>Num n\<close> is the double of value \<open>n\<close> (the two zeros are not told apart:
  \<^verbatim>\<open>!==\<close>, \<^verbatim>\<open>Math.max\<close> up to the sign of zero, and indexing do not tell them apart
  either). \<open>NaN\<close> and \<open>undefined\<close>, which a read outside an array yields, are the two
  other values that can turn up.
\<close>

datatype jsval = Num int | PosInf | NegInf | NaN | Undefined

text \<open>
  Rounding to the nearest double, ties to the even significand. A double has 53
  significant bits: below \<open>2^53\<close> every non-negative integer is a double, and from
  \<open>2^(52 + e)\<close> up to \<open>2^(53 + e)\<close> the doubles are the multiples of \<open>2^e\<close>;
  \<open>expo x\<close> is that \<open>e\<close>.
\<close>

function expo :: "int \<Rightarrow> nat" where
  "expo x = (if x < 2 ^ 53 then 0 else Suc (expo (x div 2)))"
  by pat_completeness auto
termination
  by (relation "measure nat") auto

definition round_mag :: "int \<Rightarrow> int" where
  "round_mag x =
     (let u = 2 ^ expo x; q = x div u; r = x mod u
      in if 2 * r < u \<or> (2 * r = u \<and> even q) then q * u else (q + 1) * u)"

text \<open>
  The double nearest to an integer; what rounds to \<open>2^1024\<close> or beyond in magnitude
  overflows to an infinity.
\<close>

definition fl :: "int \<Rightarrow> jsval" where
  "fl x =
     (let m = round_mag \<bar>x\<bar>
      in if 2 ^ 1024 \<le> m then (if 0 \<le> x then PosInf else NegInf)
         else Num (if 0 \<le> x then m else - m))"

text \<open>
  \<^verbatim>\<open>x + v\<close> and \<^verbatim>\<open>x - v\<close> for a value \<open>x\<close> and a finite number \<open>v\<close>: the exact sum,
  rounded; \<open>undefined\<close> converts to \<open>NaN\<close>.
\<close>

fun js_add :: "jsval \<Rightarrow> int \<Rightarrow> jsval" where
  "js_add (Num a) v = fl (a + v)"
| "js_add PosInf v = PosInf"
| "js_add NegInf v = NegInf"
| "js_add NaN v = NaN"
| "js_add Undefined v = NaN"

fun js_sub :: "jsval \<Rightarrow> int \<Rightarrow> jsval" where
  "js_sub (Num a) v = fl (a - v)"
| "js_sub PosInf v = PosInf"
| "js_sub NegInf v = NegInf"
| "js_sub NaN v = NaN"
| "js_sub Undefined v = NaN"

text \<open>\<^verbatim>\<open>Math.max(x, y)\<close>: \<open>NaN\<close> as soon as one argument is not a number.\<close>

fun js_max :: "jsval \<Rightarrow> jsval \<Rightarrow> jsval" where
  "js_max NaN y = NaN"
| "js_max Undefined y = NaN"
| "js_max x NaN = NaN"
| "js_max x Undefined = NaN"
| "js_max (Num a) (Num b) = Num (max a b)"
| "js_max PosInf y = PosInf"
| "js_max x PosInf = PosInf"
| "js_max NegInf y = y"
| "js_max x NegInf = x"

text \<open>
  \<^verbatim>\<open>x !== y\<close>: \<open>NaN\<close> differs from everything, itself included; otherwise two values
  differ when they are not the same value.
\<close>

definition js_neq :: "jsval \<Rightarrow> jsval \<Rightarrow> bool" where
  "js_neq x y \<longleftrightarrow> x = NaN \<or> y = NaN \<or> x \<noteq> y"

text \<open>\<^verbatim>\<open>x <= y\<close> on values: false as soon as one side is not a number.\<close>

fun js_le :: "jsval \<Rightarrow> jsval \<Rightarrow> bool" where
  "js_le (Num a) (Num b) = (a \<le> b)"
| "js_le (Num a) PosInf = True"
| "js_le NegInf (Num b) = True"
| "js_le NegInf NegInf = True"
| "js_le NegInf PosInf = True"
| "js_le PosInf PosInf = True"
| "js_le (Num a) NegInf = False"
| "js_le PosInf (Num b) = False"
| "js_le PosInf NegInf = False"
| "js_le NaN y = False"
| "js_le Undefined y = False"
| "js_le x NaN = False"
| "js_le x Undefined = False"

text \<open>
  \<^verbatim>\<open>row[c]\<close>: the element when \<open>c\<close> is an index of the row, \<open>undefined\<close> otherwise (no
  exception); \<open>get_cell\<close> for an integer \<open>c\<close>, \<open>get_at\<close> for a computed value.
\<close>

definition get_cell :: "jsval list \<Rightarrow> int \<Rightarrow> jsval" where
  "get_cell row c = (if 0 \<le> c \<and> c < int (length row) then row ! nat c else Undefined)"

fun get_at :: "jsval list \<Rightarrow> jsval \<Rightarrow> jsval" where
  "get_at row (Num c) = get_cell row c"
| "get_at row x = Undefined"

section \<open>Items, tables and solutions\<close>

text \<open>
  The type \<^verbatim>\<open>Item\<close> of the source. The field \<^verbatim>\<open>id\<close> is \<open>ident\<close> and the field
  \<^verbatim>\<open>value\<close> is \<open>val\<close> here. A weight or value is a JavaScript number of integer
  value, given by that integer.
\<close>

record Item =
  ident :: string
  name :: string
  weight :: int
  val :: int
  emoji :: string

type_synonym dptable = "jsval list list"

text \<open>The object \<^verbatim>\<open>{ bestValue, chosenIds, table }\<close> that the solver returns.\<close>

record Solution =
  bestValue :: jsval
  chosenIds :: "string set"
  table :: dptable

text \<open>
  The source has no \<^verbatim>\<open>throw\<close>. The one exception its body can raise is the runtime's
  \<^verbatim>\<open>RangeError: Invalid array length\<close>.
\<close>

datatype error = RangeError

section \<open>The solver\<close>

text \<open>
  The length check of \<^verbatim>\<open>Array(len)\<close> and of \<^verbatim>\<open>Array.from({ length: len }, ...)\<close>: the
  length of an array is an integer from 0 to \<open>2^32 - 1\<close>.
\<close>

fun array_length :: "jsval \<Rightarrow> error + nat" where
  "array_length (Num len) = (if 0 \<le> len \<and> len < 2 ^ 32 then Inr (nat len) else Inl RangeError)"
| "array_length x = Inl RangeError"

text \<open>
  \<^verbatim>\<open>Array.from({ length: n + 1 }, () => Array(capacity + 1).fill(0))\<close>:
  \<open>n + 1\<close> fresh rows of \<open>capacity + 1\<close> zeros each.
\<close>

definition new_table :: "nat \<Rightarrow> int \<Rightarrow> error + dptable" where
  "new_table n capacity =
     (case array_length (js_add (Num (int n)) 1) of
        Inl e \<Rightarrow> Inl e
      | Inr rows \<Rightarrow>
          (case array_length (js_add (Num capacity) 1) of
             Inl e \<Rightarrow> Inl e
           | Inr cols \<Rightarrow> Inr (replicate rows (replicate cols (Num 0)))))"

text \<open>
  The inner loop \<^verbatim>\<open>for (let c = 0; c <= capacity; c++)\<close> of the fill phase, for the
  item of weight \<open>w\<close> and value \<open>v\<close> at row \<open>i\<close>; \<open>c\<close> is the loop counter and \<open>dp\<close>
  the table so far.
\<close>

function fill_row :: "int \<Rightarrow> int \<Rightarrow> int \<Rightarrow> nat \<Rightarrow> int \<Rightarrow> dptable \<Rightarrow> dptable" where
  "fill_row w v capacity i c dp =
     (if c \<le> capacity then
        fill_row w v capacity i (c + 1)
          (dp[i := (dp ! i)[nat c :=
             (if w \<le> c
              then js_max (get_cell (dp ! (i - 1)) c)
                     (js_add (get_at (dp ! (i - 1)) (js_sub (Num c) w)) v)
              else get_cell (dp ! (i - 1)) c)]])
      else dp)"
  by pat_completeness auto
termination
  by (relation "measure (\<lambda>(w, v, capacity, i, c, dp). nat (capacity + 1 - c))") auto

text \<open>The outer loop \<^verbatim>\<open>for (let i = 1; i <= n; i++)\<close> of the fill phase.\<close>

function fill :: "Item list \<Rightarrow> int \<Rightarrow> nat \<Rightarrow> dptable \<Rightarrow> dptable" where
  "fill items capacity i dp =
     (if i \<le> length items then
        fill items capacity (i + 1)
          (fill_row (weight (items ! (i - 1))) (val (items ! (i - 1))) capacity i 0 dp)
      else dp)"
  by pat_completeness auto
termination
  by (relation "measure (\<lambda>(items, capacity, i, dp). length items + 1 - i)") auto

text \<open>
  The reconstruction loop \<^verbatim>\<open>for (let i = n; i >= 1; i--)\<close>, with the loop counter
  \<open>i\<close>, the residual capacity \<open>c\<close> and the array \<open>chosen\<close> as its state. It returns
  the state at the exit of the loop.
\<close>

fun reconstruct :: "Item list \<Rightarrow> dptable \<Rightarrow> nat \<Rightarrow> jsval \<Rightarrow> string list \<Rightarrow> jsval \<times> string list" where
  "reconstruct items dp 0 c chosen = (c, chosen)"
| "reconstruct items dp (Suc k) c chosen =
     (if js_neq (get_at (dp ! Suc k) c) (get_at (dp ! k) c)
      then reconstruct items dp k (js_sub c (weight (items ! k))) (chosen @ [ident (items ! k)])
      else reconstruct items dp k c chosen)"

definition solveKnapsack :: "Item list \<Rightarrow> int \<Rightarrow> error + Solution" where
  "solveKnapsack items capacity =
     (let n = length items in
      case new_table n capacity of
        Inl e \<Rightarrow> Inl e
      | Inr dp0 \<Rightarrow>
          let dp = fill items capacity 1 dp0;
              chosen = snd (reconstruct items dp n (Num capacity) [])
          in Inr \<lparr> bestValue = get_cell (dp ! n) capacity,
                   chosenIds = set (rev chosen),
                   table = dp \<rparr>)"

declare expo.simps [simp del]
declare fill_row.simps [simp del]
declare fill.simps [simp del]

section \<open>Test data\<close>

text \<open>The items of test T1 in \<^verbatim>\<open>runKnapsackTests\<close> (lines 135-140); the emoji is left out.\<close>

definition items1 :: "Item list" where
  "items1 =
     [\<lparr>ident = ''a'', name = ''A'', weight = 1, val = 1, emoji = ''''\<rparr>,
      \<lparr>ident = ''b'', name = ''B'', weight = 2, val = 6, emoji = ''''\<rparr>,
      \<lparr>ident = ''c'', name = ''C'', weight = 5, val = 18, emoji = ''''\<rparr>,
      \<lparr>ident = ''d'', name = ''D'', weight = 6, val = 22, emoji = ''''\<rparr>]"

text \<open>An item that weighs nothing and is worth something, and one of negative weight.\<close>

definition free_item :: Item where
  "free_item = \<lparr>ident = ''z'', name = ''Z'', weight = 0, val = 5, emoji = ''''\<rparr>"

definition negative_item :: Item where
  "negative_item = \<lparr>ident = ''z'', name = ''Z'', weight = - 1, val = 5, emoji = ''''\<rparr>"

text \<open>Two items of the same weight and value: taking either one is optimal at capacity 1.\<close>

definition tie_items :: "Item list" where
  "tie_items =
     [\<lparr>ident = ''x'', name = ''X'', weight = 1, val = 1, emoji = ''''\<rparr>,
      \<lparr>ident = ''y'', name = ''Y'', weight = 1, val = 1, emoji = ''''\<rparr>]"

text \<open>
  Values whose sums are not doubles: \<open>2^53 + 1\<close> rounds to \<open>2^53\<close>, and \<open>2^53 + 3\<close>
  to \<open>2^53 + 4\<close>.
\<close>

definition big_items :: "Item list" where
  "big_items =
     [\<lparr>ident = ''a'', name = ''A'', weight = 1, val = 9007199254740992, emoji = ''''\<rparr>,
      \<lparr>ident = ''b'', name = ''B'', weight = 1, val = 1, emoji = ''''\<rparr>]"

definition big_items3 :: "Item list" where
  "big_items3 =
     [\<lparr>ident = ''a'', name = ''A'', weight = 1, val = 9007199254740992, emoji = ''''\<rparr>,
      \<lparr>ident = ''b'', name = ''B'', weight = 1, val = 3, emoji = ''''\<rparr>]"

section \<open>Preconditions, optimum and backtrace\<close>

text \<open>The preconditions of the specification (its section 4.1).\<close>

definition nonneg_items :: "Item list \<Rightarrow> bool" where
  "nonneg_items items \<longleftrightarrow> (\<forall>it\<in>set items. 0 \<le> weight it \<and> 0 \<le> val it)"

definition distinct_ids :: "Item list \<Rightarrow> bool" where
  "distinct_ids items \<longleftrightarrow> distinct (map ident items)"

text \<open>No item is free: an item that weighs nothing is worth nothing.\<close>

definition no_free_items :: "Item list \<Rightarrow> bool" where
  "no_free_items items \<longleftrightarrow> (\<forall>it\<in>set items. weight it = 0 \<longrightarrow> val it = 0)"

definition sum_weight :: "Item list \<Rightarrow> int" where
  "sum_weight s = sum_list (map weight s)"

definition sum_val :: "Item list \<Rightarrow> int" where
  "sum_val s = sum_list (map val s)"

text \<open>
  What the runtime can hold: an array has at most \<open>2^32 - 1\<close> elements, so the table
  needs \<open>n + 1 < 2^32\<close> rows and \<open>capacity + 1 < 2^32\<close> columns.
\<close>

definition table_fits :: "Item list \<Rightarrow> int \<Rightarrow> bool" where
  "table_fits items capacity \<longleftrightarrow> int (length items) + 1 < 2 ^ 32 \<and> capacity + 1 < 2 ^ 32"

text \<open>
  The optimum of 0-1 knapsack: a selection takes each item of the list at most once, so
  it is a subsequence of the list; the optimum is the largest total value among the
  selections whose total weight is at most \<open>c\<close>.
\<close>

definition optimum :: "Item list \<Rightarrow> int \<Rightarrow> int" where
  "optimum items c = Max (set (map sum_val (filter (\<lambda>s. sum_weight s \<le> c) (subseqs items))))"

text \<open>The items whose id is in a set of ids, as test T4 looks them up.\<close>

definition chosen_items :: "Item list \<Rightarrow> string set \<Rightarrow> Item list" where
  "chosen_items items ids = filter (\<lambda>it. ident it \<in> ids) items"

text \<open>A value that is a number: finite or infinite, not \<open>NaN\<close> and not \<open>undefined\<close>.\<close>

fun is_number :: "jsval \<Rightarrow> bool" where
  "is_number (Num a) = True"
| "is_number PosInf = True"
| "is_number NegInf = True"
| "is_number NaN = False"
| "is_number Undefined = False"

text \<open>
  The backtrace as the specification words it (section 4.1, reconstruction phase), on a
  table of numbers: starting at \<open>(i, c)\<close>, item \<open>i\<close> is included, and \<open>c\<close> decremented
  by its weight, if and only if \<open>table[i][c] \<noteq> table[i-1][c]\<close>; then \<open>i\<close> is
  decremented. Each step is recorded as \<open>(i, c, included)\<close>.
\<close>

fun backtrace_spec :: "dptable \<Rightarrow> Item list \<Rightarrow> nat \<Rightarrow> int \<Rightarrow> (nat \<times> int \<times> bool) list" where
  "backtrace_spec tbl items 0 c = []"
| "backtrace_spec tbl items (Suc k) c =
     (if tbl ! Suc k ! nat c \<noteq> tbl ! k ! nat c
      then (Suc k, c, True) # backtrace_spec tbl items k (c - weight (items ! k))
      else (Suc k, c, False) # backtrace_spec tbl items k c)"

text \<open>The ids of the items that a backtrace includes.\<close>

definition included_ids :: "Item list \<Rightarrow> (nat \<times> int \<times> bool) list \<Rightarrow> string set" where
  "included_ids items steps =
     set (map (\<lambda>(i, c, inc). ident (items ! (i - 1))) (filter (\<lambda>(i, c, inc). inc) steps))"

section \<open>Auxiliary notions for the proofs\<close>

text \<open>The selections within a budget.\<close>

definition feasible :: "Item list \<Rightarrow> int \<Rightarrow> Item list set" where
  "feasible items c = {s. subseq s items \<and> sum_weight s \<le> c}"

text \<open>
  The value that one iteration of the inner loop writes to \<^verbatim>\<open>dp[i][c]\<close>, from the row
  \<open>prev\<close> above.
\<close>

definition new_cell :: "int \<Rightarrow> int \<Rightarrow> jsval list \<Rightarrow> int \<Rightarrow> jsval" where
  "new_cell w v prev c =
     (if w \<le> c then js_max (get_cell prev c) (js_add (get_at prev (js_sub (Num c) w)) v)
      else get_cell prev c)"

text \<open>
  The invariant of the outer loop, for any input: each row from 1 to below \<open>i\<close> is
  what the loop body makes of the row above it.
\<close>

definition rows_filled :: "Item list \<Rightarrow> int \<Rightarrow> nat \<Rightarrow> dptable \<Rightarrow> bool" where
  "rows_filled items capacity i dp \<longleftrightarrow>
     (\<forall>j k. 1 \<le> j \<and> j < i \<and> int k \<le> capacity \<longrightarrow>
        dp ! j ! k =
          new_cell (weight (items ! (j - 1))) (val (items ! (j - 1))) (dp ! (j - 1)) (int k))"

text \<open>
  The recurrence of the fill phase as a function: the value of \<^verbatim>\<open>dp[i][c]\<close> when
  every read hits a cell.
\<close>

fun cellval :: "Item list \<Rightarrow> nat \<Rightarrow> int \<Rightarrow> jsval" where
  "cellval items 0 c = Num 0"
| "cellval items (Suc k) c =
     (if weight (items ! k) \<le> c
      then js_max (cellval items k c)
             (js_add (cellval items k (c - weight (items ! k))) (val (items ! k)))
      else cellval items k c)"

text \<open>The table after the fill phase.\<close>

definition filled :: "Item list \<Rightarrow> int \<Rightarrow> dptable" where
  "filled items capacity =
     fill items capacity 1 (replicate (length items + 1) (replicate (nat (capacity + 1)) (Num 0)))"

text \<open>The items that the reconstruction loop takes, in input order.\<close>

fun picked :: "Item list \<Rightarrow> dptable \<Rightarrow> nat \<Rightarrow> jsval \<Rightarrow> Item list" where
  "picked items dp 0 c = []"
| "picked items dp (Suc k) c =
     (if js_neq (get_at (dp ! Suc k) c) (get_at (dp ! k) c)
      then picked items dp k (js_sub c (weight (items ! k))) @ [items ! k]
      else picked items dp k c)"

text \<open>
  The values of \<open>i\<close> and \<open>c\<close> at each iteration of the reconstruction loop, where it
  reads \<^verbatim>\<open>dp[i][c]\<close> and \<^verbatim>\<open>dp[i - 1][c]\<close>.
\<close>

fun visited :: "Item list \<Rightarrow> dptable \<Rightarrow> nat \<Rightarrow> jsval \<Rightarrow> (nat \<times> jsval) list" where
  "visited items dp 0 c = []"
| "visited items dp (Suc k) c =
     (Suc k, c) #
     (if js_neq (get_at (dp ! Suc k) c) (get_at (dp ! k) c)
      then visited items dp k (js_sub c (weight (items ! k)))
      else visited items dp k c)"

section \<open>Rounding\<close>

lemma expo_small: "x < 2 ^ 53 \<Longrightarrow> expo x = 0"
  by (subst expo.simps) simp

lemma expo_big: "\<not> x < 2 ^ 53 \<Longrightarrow> expo x = Suc (expo (x div 2))"
  by (subst expo.simps) simp

lemma expo_upper: "x < 2 ^ 53 * 2 ^ expo x"
proof (induction x rule: expo.induct)
  case (1 x)
  show ?case
  proof (cases "x < 2 ^ 53")
    case True
    then show ?thesis by (simp add: expo_small)
  next
    case False
    then have "x div 2 < 2 ^ 53 * 2 ^ expo (x div 2)" by (rule 1)
    then have "x < 2 * (2 ^ 53 * 2 ^ expo (x div 2))" by linarith
    then show ?thesis by (simp add: expo_big[OF False])
  qed
qed

lemma expo_lower: "0 < expo x \<Longrightarrow> 2 ^ 52 * 2 ^ expo x \<le> x"
proof (induction x rule: expo.induct)
  case (1 x)
  have big: "\<not> x < 2 ^ 53" using "1.prems" expo_small[of x] by auto
  show ?case
  proof (cases "0 < expo (x div 2)")
    case True
    then have "2 ^ 52 * 2 ^ expo (x div 2) \<le> x div 2" using big by (intro 1) simp_all
    then have "2 * (2 ^ 52 * 2 ^ expo (x div 2)) \<le> x" by linarith
    then show ?thesis by (simp add: expo_big[OF big])
  next
    case False
    then show ?thesis using big by (simp add: expo_big[OF big])
  qed
qed

lemma expo_mono: "x \<le> y \<Longrightarrow> expo x \<le> expo y"
proof (rule ccontr)
  assume le: "x \<le> y" and "\<not> expo x \<le> expo y"
  then have gt: "Suc (expo y) \<le> expo x" by simp
  have "(2::int) ^ 53 * 2 ^ expo y = 2 ^ 52 * 2 ^ Suc (expo y)" by simp
  also have "\<dots> \<le> 2 ^ 52 * 2 ^ expo x"
    using gt by (intro mult_left_mono power_increasing) simp_all
  also have "\<dots> \<le> x" using gt by (intro expo_lower) simp
  finally show False using expo_upper[of y] le by linarith
qed

lemma div_mod_bounds:
  fixes x u :: int
  assumes "0 < u"
  shows "x = (x div u) * u + x mod u" "0 \<le> x mod u" "x mod u < u"
  using assms by simp_all

lemma quot_less:
  fixes x u k :: int
  assumes "0 < u" "x < k * u"
  shows "x div u < k"
proof (rule ccontr)
  assume "\<not> x div u < k"
  then have "k * u \<le> (x div u) * u" using assms(1) by (intro mult_right_mono) simp_all
  also have "\<dots> \<le> x" using div_mod_bounds[OF assms(1), of x] by linarith
  finally show False using assms(2) by simp
qed

lemma quot_ge:
  fixes x u k :: int
  assumes "0 < u" "k * u \<le> x"
  shows "k \<le> x div u"
proof (rule ccontr)
  assume "\<not> k \<le> x div u"
  then have "x div u + 1 \<le> k" by simp
  then have "(x div u + 1) * u \<le> k * u" using assms(1) by (intro mult_right_mono) simp_all
  moreover have "(x div u + 1) * u = (x div u) * u + u"
    by (simp add: algebra_simps)
  then have "x < (x div u + 1) * u"
    using div_mod_bounds[OF assms(1), of x] by linarith
  ultimately show False using assms(2) by simp
qed

lemma round_mag_low: "(x div 2 ^ expo x) * 2 ^ expo x \<le> round_mag x"
  by (simp add: round_mag_def Let_def)

lemma round_mag_high: "round_mag x \<le> (x div 2 ^ expo x + 1) * 2 ^ expo x"
  by (simp add: round_mag_def Let_def)

lemma round_mag_upper: "round_mag x \<le> 2 ^ 53 * 2 ^ expo x"
proof -
  have "x div 2 ^ expo x < 2 ^ 53"
    using expo_upper[of x] by (intro quot_less) simp_all
  then have "(x div 2 ^ expo x + 1) * 2 ^ expo x \<le> 2 ^ 53 * 2 ^ expo x"
    by (intro mult_right_mono) simp_all
  then show ?thesis using round_mag_high[of x] by linarith
qed

lemma round_mag_lower: "0 < expo x \<Longrightarrow> 2 ^ 52 * 2 ^ expo x \<le> round_mag x"
proof -
  assume "0 < expo x"
  then have "2 ^ 52 \<le> x div 2 ^ expo x"
    using expo_lower[of x] by (intro quot_ge) simp_all
  then have "2 ^ 52 * 2 ^ expo x \<le> (x div 2 ^ expo x) * 2 ^ expo x"
    by (intro mult_right_mono) simp_all
  then show ?thesis using round_mag_low[of x] by linarith
qed

lemma round_mag_exact: "0 \<le> x \<Longrightarrow> x \<le> 2 ^ 53 \<Longrightarrow> round_mag x = x"
proof (cases "x < 2 ^ 53")
  case True
  then show ?thesis by (simp add: round_mag_def expo_small)
next
  case False
  assume "x \<le> 2 ^ 53"
  then have x: "x = 2 ^ 53" using False by simp
  have "expo (2 ^ 53) = Suc 0"
    by (simp add: expo_big expo_small)
  then show ?thesis by (simp add: round_mag_def x)
qed

lemma round_mag_nonneg: "0 \<le> x \<Longrightarrow> 0 \<le> round_mag x"
proof -
  assume "0 \<le> x"
  then have "0 \<le> x div 2 ^ expo x" by (simp add: pos_imp_zdiv_nonneg_iff)
  then have "0 \<le> (x div 2 ^ expo x) * 2 ^ expo x" by simp
  then show ?thesis using round_mag_low[of x] by linarith
qed

lemma round_mag_mono:
  assumes "0 \<le> x" "x \<le> y"
  shows "round_mag x \<le> round_mag y"
proof (cases "expo x = expo y")
  case False
  then have "Suc (expo x) \<le> expo y" using expo_mono[OF assms(2)] by simp
  then have "(2::int) ^ 52 * 2 ^ Suc (expo x) \<le> 2 ^ 52 * 2 ^ expo y"
    by (intro mult_left_mono power_increasing) simp_all
  moreover have "(2::int) ^ 53 * 2 ^ expo x = 2 ^ 52 * 2 ^ Suc (expo x)" by simp
  moreover have "0 < expo y" using \<open>Suc (expo x) \<le> expo y\<close> by simp
  ultimately show ?thesis
    using round_mag_upper[of x] round_mag_lower[of y] by linarith
next
  case True
  define u :: int where "u = 2 ^ expo x"
  have u: "0 < u" by (simp add: u_def)
  have uy: "2 ^ expo y = u" using True by (simp add: u_def)
  have qle: "x div u \<le> y div u" using assms(2) u by (rule zdiv_mono1)
  show ?thesis
  proof (cases "x div u = y div u")
    case False
    then have "x div u + 1 \<le> y div u" using qle by simp
    then have "(x div u + 1) * u \<le> (y div u) * u" using u by (intro mult_right_mono) simp_all
    then show ?thesis
      using round_mag_high[of x] round_mag_low[of y] by (simp add: uy u_def[symmetric])
  next
    case q: True
    have "x - x mod u = (x div u) * u" "y - y mod u = (y div u) * u"
      by (simp_all add: minus_mod_eq_div_mult)
    then have "x - x mod u = y - y mod u" using q by simp
    then have "x mod u \<le> y mod u" using assms(2) by linarith
    then show ?thesis
      using u by (auto simp: round_mag_def Let_def uy u_def[symmetric] q)
  qed
qed

lemma fl_exact: "\<bar>x\<bar> \<le> 2 ^ 53 \<Longrightarrow> fl x = Num x"
  by (simp add: fl_def Let_def round_mag_exact)

lemma fl_number: "is_number (fl x)"
  by (simp add: fl_def Let_def)

lemma fl_nonneg: "0 \<le> x \<Longrightarrow> js_le (Num 0) (fl x)"
  using round_mag_nonneg[of x] by (simp add: fl_def Let_def)

lemma fl_mono: "0 \<le> x \<Longrightarrow> x \<le> y \<Longrightarrow> js_le (fl x) (fl y)"
  using round_mag_mono[of x y] by (simp add: fl_def Let_def)

section \<open>Operations on values\<close>

lemma js_add_number: "is_number x \<Longrightarrow> is_number (js_add x v)"
  by (cases x) (simp_all add: fl_number)

lemma js_max_number: "is_number x \<Longrightarrow> is_number y \<Longrightarrow> is_number (js_max x y)"
  by (cases x; cases y) simp_all

lemma js_neq_number: "is_number x \<Longrightarrow> is_number y \<Longrightarrow> js_neq x y \<longleftrightarrow> x \<noteq> y"
  by (cases x; cases y) (simp_all add: js_neq_def)

lemma js_max_same: "is_number x \<Longrightarrow> js_max x x = x"
  by (cases x) simp_all

lemma js_le_number: "js_le x y \<Longrightarrow> is_number x \<and> is_number y"
  by (cases x; cases y) simp_all

lemma js_le_refl: "is_number x \<Longrightarrow> js_le x x"
  by (cases x) simp_all

lemma js_le_trans: "js_le x y \<Longrightarrow> js_le y z \<Longrightarrow> js_le x z"
  by (cases x; cases y; cases z) simp_all

lemma js_le_max1: "is_number x \<Longrightarrow> is_number y \<Longrightarrow> js_le x (js_max x y)"
  by (cases x; cases y) simp_all

lemma js_max_mono: "js_le a b \<Longrightarrow> js_le x y \<Longrightarrow> js_le (js_max a x) (js_max b y)"
  by (cases a; cases b; cases x; cases y) auto

lemma js_add_nonneg: "js_le (Num 0) a \<Longrightarrow> 0 \<le> v \<Longrightarrow> js_le (Num 0) (js_add a v)"
  by (cases a) (simp_all add: fl_nonneg)

lemma js_le_fl_PosInf: "0 \<le> x \<Longrightarrow> js_le (fl x) PosInf"
  using fl_nonneg[of x] by (cases "fl x") simp_all

lemma js_add_mono:
  "js_le (Num 0) a \<Longrightarrow> js_le a b \<Longrightarrow> 0 \<le> v \<Longrightarrow> js_le (js_add a v) (js_add b v)"
  by (cases a; cases b) (simp_all add: fl_mono js_le_fl_PosInf)

lemma js_sub_exact: "\<bar>c - w\<bar> \<le> 2 ^ 53 \<Longrightarrow> js_sub (Num c) w = Num (c - w)"
  by (simp add: fl_exact)

lemma js_add_exact: "\<bar>a + v\<bar> \<le> 2 ^ 53 \<Longrightarrow> js_add (Num a) v = Num (a + v)"
  by (simp add: fl_exact)

section \<open>The optimum\<close>

lemma optimum_feasible: "optimum items c = Max (sum_val ` feasible items c)"
  by (simp add: optimum_def feasible_def set_subseqs_eq)

lemma finite_feasible: "finite (feasible items c)"
proof -
  have "feasible items c \<subseteq> set (subseqs items)"
    by (auto simp: feasible_def set_subseqs_eq)
  then show ?thesis by (rule finite_subset) simp
qed

lemma sum_weight_nonneg: "\<forall>x\<in>set xs. 0 \<le> weight x \<Longrightarrow> 0 \<le> sum_weight xs"
  by (induction xs) (simp_all add: sum_weight_def)

lemma subseq_weight_nonneg:
  assumes "\<forall>x\<in>set xs. 0 \<le> weight x" "subseq s xs"
  shows "0 \<le> sum_weight s"
  using assms(2,1) by (induction rule: list_emb.induct) (simp_all add: sum_weight_def)

lemma nil_feasible: "0 \<le> c \<Longrightarrow> [] \<in> feasible items c"
  by (simp add: feasible_def sum_weight_def)

lemma feasible_empty: "\<forall>x\<in>set xs. 0 \<le> weight x \<Longrightarrow> c < 0 \<Longrightarrow> feasible xs c = {}"
  using subseq_weight_nonneg by (fastforce simp: feasible_def)

lemma subseq_singleton_right: "subseq s [x] \<longleftrightarrow> s = [] \<or> s = [x]"
  by (cases s) auto

lemma feasible_snoc:
  "feasible (xs @ [x]) c = feasible xs c \<union> (\<lambda>s. s @ [x]) ` feasible xs (c - weight x)"
  by (auto simp: feasible_def subseq_append_iff subseq_singleton_right sum_weight_def)

lemma optimum_snoc:
  assumes "\<forall>y\<in>set xs. 0 \<le> weight y" "0 \<le> c"
  shows "optimum (xs @ [x]) c =
    (if weight x \<le> c then max (optimum xs c) (optimum xs (c - weight x) + val x) else optimum xs c)"
proof -
  let ?A = "sum_val ` feasible xs c"
  let ?B = "sum_val ` feasible xs (c - weight x)"
  have img: "sum_val ` feasible (xs @ [x]) c = ?A \<union> (\<lambda>a. a + val x) ` ?B"
    by (simp add: feasible_snoc image_Un image_image sum_val_def)
  have neA: "?A \<noteq> {}" using nil_feasible[OF assms(2)] by blast
  have finA: "finite ?A" and finB: "finite ?B" by (simp_all add: finite_feasible)
  show ?thesis
  proof (cases "weight x \<le> c")
    case True
    then have neB: "?B \<noteq> {}" using nil_feasible[of "c - weight x" xs] by auto
    have "Max ((\<lambda>a. a + val x) ` ?B) = Max ?B + val x"
      using finB neB by (simp add: Max_add_commute)
    moreover have "Max (?A \<union> (\<lambda>a. a + val x) ` ?B) = max (Max ?A) (Max ((\<lambda>a. a + val x) ` ?B))"
      using finA finB neA neB by (intro Max_Un) auto
    ultimately show ?thesis using True by (simp add: optimum_feasible img)
  next
    case False
    then have "feasible xs (c - weight x) = {}"
      using feasible_empty[OF assms(1)] by simp
    then show ?thesis using False by (simp add: optimum_feasible img)
  qed
qed

lemma optimum_nil: "0 \<le> c \<Longrightarrow> optimum [] c = 0"
  by (simp add: optimum_def sum_val_def sum_weight_def)


lemma sum_val_nonneg: "\<forall>y\<in>set xs. 0 \<le> val y \<Longrightarrow> 0 \<le> sum_val xs"
  by (induction xs) (simp_all add: sum_val_def)

lemma subseq_val_le:
  assumes "subseq s xs" "\<forall>y\<in>set xs. 0 \<le> val y"
  shows "sum_val s \<le> sum_val xs"
  using assms
proof (induction rule: list_emb.induct)
  case (list_emb_Nil ys)
  then show ?case using sum_val_nonneg[of ys] by (simp add: sum_val_def)
next
  case (list_emb_Cons xs ys y)
  then show ?case by (simp add: sum_val_def)
next
  case (list_emb_Cons2 x y xs ys)
  then show ?case by (simp add: sum_val_def)
qed

lemma optimum_bounds:
  assumes "\<forall>y\<in>set xs. 0 \<le> val y" "0 \<le> c"
  shows "0 \<le> optimum xs c" "optimum xs c \<le> sum_val xs"
proof -
  have fin: "finite (sum_val ` feasible xs c)" by (simp add: finite_feasible)
  have ne: "sum_val ` feasible xs c \<noteq> {}" using nil_feasible[OF assms(2)] by blast
  have "sum_val [] \<in> sum_val ` feasible xs c" using nil_feasible[OF assms(2)] by blast
  then have "sum_val [] \<le> optimum xs c" unfolding optimum_feasible using fin by (intro Max_ge)
  then show "0 \<le> optimum xs c" by (simp add: sum_val_def)
  have "\<forall>a\<in>sum_val ` feasible xs c. a \<le> sum_val xs"
    using subseq_val_le[OF _ assms(1)] by (auto simp: feasible_def)
  then show "optimum xs c \<le> sum_val xs"
    unfolding optimum_feasible using fin ne by simp
qed

lemma sum_val_take_le:
  assumes "\<forall>y\<in>set xs. 0 \<le> val y"
  shows "sum_val (take k xs) \<le> sum_val xs"
proof -
  have "sum_val xs = sum_val (take k xs) + sum_val (drop k xs)"
    unfolding sum_val_def by (metis append_take_drop_id map_append sum_list_append)
  moreover have "0 \<le> sum_val (drop k xs)"
    using assms by (intro sum_val_nonneg) (auto dest: in_set_dropD)
  ultimately show ?thesis by simp
qed

section \<open>The fill phase\<close>

lemma fill_row_length [simp]: "length (fill_row w v capacity i c dp) = length dp"
  by (induction w v capacity i c dp rule: fill_row.induct) (subst fill_row.simps, simp)

lemma fill_row_other: "j \<noteq> i \<Longrightarrow> fill_row w v capacity i c dp ! j = dp ! j"
  by (induction w v capacity i c dp rule: fill_row.induct) (subst fill_row.simps, simp)

lemma fill_row_row_length:
  "i < length dp \<Longrightarrow> length (fill_row w v capacity i c dp ! i) = length (dp ! i)"
proof (induction w v capacity i c dp rule: fill_row.induct)
  case (1 w v capacity i c dp)
  show ?case
  proof (cases "c \<le> capacity")
    case True
    then show ?thesis
      using 1 by (subst fill_row.simps) simp
  next
    case False
    then show ?thesis by (subst fill_row.simps) simp
  qed
qed

lemma fill_row_before:
  "i < length dp \<Longrightarrow> 0 \<le> c \<Longrightarrow> k < nat c \<Longrightarrow> fill_row w v capacity i c dp ! i ! k = dp ! i ! k"
proof (induction w v capacity i c dp rule: fill_row.induct)
  case (1 w v capacity i c dp)
  show ?case
  proof (cases "c \<le> capacity")
    case True
    then show ?thesis
      using 1 by (subst fill_row.simps) simp
  next
    case False
    then show ?thesis by (subst fill_row.simps) simp
  qed
qed

lemma fill_row_cell:
  "1 \<le> i \<Longrightarrow> i < length dp \<Longrightarrow> 0 \<le> c \<Longrightarrow> nat c \<le> k \<Longrightarrow> int k \<le> capacity \<Longrightarrow>
   k < length (dp ! i) \<Longrightarrow>
   fill_row w v capacity i c dp ! i ! k = new_cell w v (dp ! (i - 1)) (int k)"
proof (induction w v capacity i c dp rule: fill_row.induct)
  case (1 w v capacity i c dp)
  from "1.prems" have le: "c \<le> capacity" by linarith
  let ?x = "new_cell w v (dp ! (i - 1)) c"
  let ?dp = "dp[i := (dp ! i)[nat c := ?x]]"
  have unfold: "fill_row w v capacity i c dp = fill_row w v capacity i (c + 1) ?dp"
    using le "1.prems"(3) by (subst fill_row.simps) (simp add: new_cell_def)
  have prev: "?dp ! (i - 1) = dp ! (i - 1)" using "1.prems"(1) by simp
  have row: "?dp ! i = (dp ! i)[nat c := ?x]" using "1.prems"(2) by simp
  show ?case
  proof (cases "k = nat c")
    case True
    have "fill_row w v capacity i (c + 1) ?dp ! i ! k = ?dp ! i ! k"
      using True "1.prems"(2,3) by (intro fill_row_before) simp_all
    also have "\<dots> = ?x" using True row "1.prems"(6) by simp
    also have "\<dots> = new_cell w v (dp ! (i - 1)) (int k)" using True "1.prems"(3) by simp
    finally show ?thesis by (simp only: unfold)
  next
    case False
    have "fill_row w v capacity i (c + 1) ?dp ! i ! k = new_cell w v (?dp ! (i - 1)) (int k)"
      using le "1.prems" False
      by (intro "1.IH"[unfolded new_cell_def[symmetric]]) (simp_all add: row new_cell_def)
    then show ?thesis by (simp only: unfold prev)
  qed
qed

lemma fill_length [simp]: "length (fill items capacity i dp) = length dp"
  by (induction items capacity i dp rule: fill.induct) (subst fill.simps, simp)

lemma fill_row_all_lengths:
  assumes "\<forall>j<length dp. length (dp ! j) = m" "j < length dp"
  shows "length (fill_row w v capacity i c dp ! j) = m"
proof (cases "j = i")
  case True
  then show ?thesis using assms by (simp add: fill_row_row_length)
next
  case False
  then show ?thesis using assms by (simp add: fill_row_other)
qed

lemma fill_all_lengths:
  "\<forall>j<length dp. length (dp ! j) = m \<Longrightarrow> j < length dp \<Longrightarrow>
   length (fill items capacity i dp ! j) = m"
proof (induction items capacity i dp rule: fill.induct)
  case (1 items capacity i dp)
  show ?case
  proof (cases "i \<le> length items")
    case True
    let ?dp = "fill_row (weight (items ! (i - 1))) (val (items ! (i - 1))) capacity i 0 dp"
    have "length (fill items capacity (i + 1) ?dp ! j) = m"
      using True "1.prems" by (intro "1.IH") (simp_all add: fill_row_all_lengths)
    then show ?thesis using True by (subst fill.simps) simp
  next
    case False
    then show ?thesis using "1.prems" by (subst fill.simps) simp
  qed
qed

lemma fill_row_keeps: "j \<noteq> i \<Longrightarrow> fill_row w v capacity i c dp ! j = dp ! j"
  by (rule fill_row_other)

lemma fill_keeps: "j < i \<Longrightarrow> fill items capacity i dp ! j = dp ! j"
proof (induction items capacity i dp rule: fill.induct)
  case (1 items capacity i dp)
  show ?case
  proof (cases "i \<le> length items")
    case True
    let ?dp = "fill_row (weight (items ! (i - 1))) (val (items ! (i - 1))) capacity i 0 dp"
    have "fill items capacity (i + 1) ?dp ! j = ?dp ! j"
      using True "1.prems" by (intro "1.IH") simp_all
    also have "\<dots> = dp ! j" using "1.prems" by (simp add: fill_row_other)
    finally show ?thesis using True by (subst fill.simps) simp
  next
    case False
    then show ?thesis by (subst fill.simps) simp
  qed
qed

lemma fill_rows_filled:
  "1 \<le> i \<Longrightarrow> i \<le> length items + 1 \<Longrightarrow> length dp = length items + 1 \<Longrightarrow>
   \<forall>j<length dp. length (dp ! j) = nat (capacity + 1) \<Longrightarrow>
   rows_filled items capacity i dp \<Longrightarrow>
   rows_filled items capacity (length items + 1) (fill items capacity i dp)"
proof (induction items capacity i dp rule: fill.induct)
  case (1 items capacity i dp)
  show ?case
  proof (cases "i \<le> length items")
    case True
    let ?w = "weight (items ! (i - 1))" and ?v = "val (items ! (i - 1))"
    let ?dp = "fill_row ?w ?v capacity i 0 dp"
    have i: "i < length dp" using True "1.prems" by simp
    have leni: "length (dp ! i) = nat (capacity + 1)"
      using "1.prems"(4) i by simp
    have "rows_filled items capacity (i + 1) ?dp"
      unfolding rows_filled_def
    proof (intro allI impI)
      fix j k assume "1 \<le> j \<and> j < i + 1 \<and> int k \<le> capacity"
      then have jk: "1 \<le> j" "j < i + 1" "int k \<le> capacity" by simp_all
      show "?dp ! j ! k =
          new_cell (weight (items ! (j - 1))) (val (items ! (j - 1))) (?dp ! (j - 1)) (int k)"
      proof (cases "j = i")
        case True
        have "?dp ! i ! k = new_cell ?w ?v (dp ! (i - 1)) (int k)"
          using "1.prems"(1) i jk leni by (intro fill_row_cell) simp_all
        moreover have "?dp ! (i - 1) = dp ! (i - 1)"
          using "1.prems"(1) by (intro fill_row_other) simp
        ultimately show ?thesis using True by simp
      next
        case False
        then have "j < i" using jk by simp
        then have "?dp ! j = dp ! j" "?dp ! (j - 1) = dp ! (j - 1)"
          by (simp_all add: fill_row_other)
        then show ?thesis using \<open>j < i\<close> jk "1.prems"(5) by (simp add: rows_filled_def)
      qed
    qed
    then have "rows_filled items capacity (length items + 1) (fill items capacity (i + 1) ?dp)"
      using True "1.prems" by (intro "1.IH") (simp_all add: fill_row_all_lengths)
    then show ?thesis using True by (subst fill.simps) simp
  next
    case False
    then have "i = length items + 1" using "1.prems"(2) by simp
    then show ?thesis using False "1.prems"(5) by (subst fill.simps) simp
  qed
qed

section \<open>The solver as a whole\<close>

lemma round_mag_ge:
  assumes "0 \<le> k" "k \<le> 2 ^ 53" "k \<le> x"
  shows "k \<le> round_mag x"
  using round_mag_mono[OF assms(1,3)] round_mag_exact[OF assms(1,2)] by simp

lemma array_length_fl:
  "array_length (fl x) = (if 0 \<le> x \<and> x < 2 ^ 32 then Inr (nat x) else Inl RangeError)"
proof (cases "0 \<le> x \<and> x < 2 ^ 32")
  case True
  then have "fl x = Num x" by (intro fl_exact) simp
  then show ?thesis using True by simp
next
  case False
  show ?thesis
  proof (cases "0 \<le> x")
    case True
    then have "2 ^ 32 \<le> round_mag \<bar>x\<bar>" using False by (intro round_mag_ge) simp_all
    then show ?thesis using True False by (simp add: fl_def Let_def)
  next
    case neg: False
    then have "1 \<le> round_mag \<bar>x\<bar>" by (intro round_mag_ge) simp_all
    then show ?thesis using neg by (simp add: fl_def Let_def)
  qed
qed

lemma new_table_eq:
  "new_table n capacity =
     (if int n + 1 < 2 ^ 32 \<and> 0 \<le> capacity + 1 \<and> capacity + 1 < 2 ^ 32
      then Inr (replicate (n + 1) (replicate (nat (capacity + 1)) (Num 0)))
      else Inl RangeError)"
  by (simp add: new_table_def array_length_fl nat_add_distrib)

lemma solveKnapsack_Inl:
  "\<not> (table_fits items capacity \<and> - 1 \<le> capacity) \<Longrightarrow>
     solveKnapsack items capacity = Inl RangeError"
  by (auto simp: solveKnapsack_def new_table_eq table_fits_def Let_def)

lemma reconstruct_picked:
  "snd (reconstruct items dp i c chosen) = chosen @ rev (map ident (picked items dp i c))"
  by (induction i arbitrary: c chosen) simp_all

lemma solveKnapsack_Inr:
  "table_fits items capacity \<Longrightarrow> - 1 \<le> capacity \<Longrightarrow>
   solveKnapsack items capacity =
     Inr \<lparr> bestValue = get_cell (filled items capacity ! length items) capacity,
           chosenIds = ident ` set (picked items (filled items capacity) (length items) (Num capacity)),
           table = filled items capacity \<rparr>"
  by (simp add: solveKnapsack_def new_table_eq table_fits_def filled_def Let_def reconstruct_picked)

lemma filled_length: "length (filled items capacity) = length items + 1"
  by (simp add: filled_def)

lemma zero_table_rows:
  "\<forall>j<length (replicate (n + 1) (replicate m x)). length (replicate (n + 1) (replicate m x) ! j) = m"
  by (auto simp: nth_Cons')

lemma filled_row_length:
  "j \<le> length items \<Longrightarrow> length (filled items capacity ! j) = nat (capacity + 1)"
  unfolding filled_def by (rule fill_all_lengths) (rule zero_table_rows, simp)

lemma filled_row0: "filled items capacity ! 0 = replicate (nat (capacity + 1)) (Num 0)"
  unfolding filled_def by (simp add: fill_keeps)

lemma filled_rows_filled:
  "rows_filled items capacity (length items + 1) (filled items capacity)"
  unfolding filled_def
proof (rule fill_rows_filled)
  show "rows_filled items capacity 1
     (replicate (length items + 1) (replicate (nat (capacity + 1)) (Num 0)))"
    by (simp add: rows_filled_def)
  show "\<forall>j<length (replicate (length items + 1) (replicate (nat (capacity + 1)) (Num 0))).
     length (replicate (length items + 1) (replicate (nat (capacity + 1)) (Num 0)) ! j) = nat (capacity + 1)"
    by (rule zero_table_rows)
qed simp_all

lemma filled_cell_rec:
  assumes "1 \<le> i" "i \<le> length items" "0 \<le> c" "c \<le> capacity"
  shows "get_cell (filled items capacity ! i) c =
     new_cell (weight (items ! (i - 1))) (val (items ! (i - 1))) (filled items capacity ! (i - 1)) c"
proof -
  have "filled items capacity ! i ! nat c =
     new_cell (weight (items ! (i - 1))) (val (items ! (i - 1))) (filled items capacity ! (i - 1))
       (int (nat c))"
    using filled_rows_filled[of items capacity] assms by (simp add: rows_filled_def)
  then show ?thesis using assms by (simp add: get_cell_def filled_row_length)
qed

lemma filled_cellval:
  assumes w: "\<forall>y\<in>set items. 0 \<le> weight y" and cap: "capacity \<le> 2 ^ 53"
  shows "j \<le> length items \<Longrightarrow> 0 \<le> c \<Longrightarrow> c \<le> capacity \<Longrightarrow>
    get_cell (filled items capacity ! j) c = cellval items j c"
proof (induction j arbitrary: c)
  case 0
  then show ?case by (simp add: filled_row0 get_cell_def)
next
  case (Suc k)
  let ?w = "weight (items ! k)"
  have wk: "0 \<le> ?w" using w Suc.prems(1) by simp
  have rec: "get_cell (filled items capacity ! Suc k) c =
      new_cell ?w (val (items ! k)) (filled items capacity ! k) c"
    using filled_cell_rec[of "Suc k" items c capacity] Suc.prems by simp
  have here: "get_cell (filled items capacity ! k) c = cellval items k c"
    using Suc.prems by (intro Suc.IH) simp_all
  show ?case
  proof (cases "?w \<le> c")
    case True
    have "\<bar>c - ?w\<bar> \<le> 2 ^ 53" using True wk Suc.prems(3) cap by simp
    then have "js_sub (Num c) ?w = Num (c - ?w)" by (rule js_sub_exact)
    moreover have "get_cell (filled items capacity ! k) (c - ?w) = cellval items k (c - ?w)"
      using True wk Suc.prems by (intro Suc.IH) simp_all
    ultimately show ?thesis using True rec here by (simp add: new_cell_def)
  next
    case False
    then show ?thesis using rec here by (simp add: new_cell_def)
  qed
qed

section \<open>The recurrence\<close>

lemma cellval_number: "is_number (cellval items k c)"
  by (induction k arbitrary: c) (simp_all add: js_max_number js_add_number)

lemma cellval_nonneg:
  assumes "\<forall>y\<in>set items. 0 \<le> val y"
  shows "k \<le> length items \<Longrightarrow> js_le (Num 0) (cellval items k c)"
proof (induction k arbitrary: c)
  case 0
  show ?case by simp
next
  case (Suc k)
  have v: "0 \<le> val (items ! k)" using assms Suc.prems by simp
  have ih: "js_le (Num 0) (cellval items k c')" for c' using Suc by simp
  have "js_le (Num 0) (js_max (cellval items k c)
          (js_add (cellval items k (c - weight (items ! k))) (val (items ! k))))"
    using js_max_mono[OF ih[of c] js_add_nonneg[OF ih[of "c - weight (items ! k)"] v]] by simp
  then show ?case using ih[of c] by simp
qed

lemma cellval_mono:
  assumes "\<forall>y\<in>set items. 0 \<le> val y"
  shows "k \<le> length items \<Longrightarrow> c1 \<le> c2 \<Longrightarrow> js_le (cellval items k c1) (cellval items k c2)"
proof (induction k arbitrary: c1 c2)
  case 0
  show ?case by simp
next
  case (Suc k)
  let ?w = "weight (items ! k)" and ?v = "val (items ! k)"
  have v: "0 \<le> ?v" using assms Suc.prems by simp
  have k: "k \<le> length items" using Suc.prems by simp
  have ih: "js_le (cellval items k a) (cellval items k b)" if "a \<le> b" for a b
    using Suc.IH[OF k that] .
  have nn: "js_le (Num 0) (cellval items k a)" for a
    using cellval_nonneg[OF assms k] .
  show ?case
  proof (cases "?w \<le> c1")
    case True
    then have "?w \<le> c2" using Suc.prems by simp
    moreover have "js_le (js_add (cellval items k (c1 - ?w)) ?v) (js_add (cellval items k (c2 - ?w)) ?v)"
      using Suc.prems by (intro js_add_mono nn ih v) simp
    ultimately show ?thesis using True ih[OF Suc.prems(2)] by (simp add: js_max_mono)
  next
    case False
    show ?thesis
    proof (cases "?w \<le> c2")
      case True
      have "js_le (cellval items k c2)
          (js_max (cellval items k c2) (js_add (cellval items k (c2 - ?w)) ?v))"
        by (intro js_le_max1 js_add_number cellval_number)
      then show ?thesis
        using False True js_le_trans[OF ih[OF Suc.prems(2)]] by simp
    next
      case f2: False
      then show ?thesis using False ih[OF Suc.prems(2)] by simp
    qed
  qed
qed

lemma cellval_prefix: "k \<le> length items \<Longrightarrow> cellval (items @ ys) k c = cellval items k c"
  by (induction k arbitrary: c) (simp_all add: nth_append)

lemma cellval_optimum:
  assumes nn: "nonneg_items items" and small: "sum_val items \<le> 2 ^ 53"
  shows "k \<le> length items \<Longrightarrow> 0 \<le> c \<Longrightarrow> cellval items k c = Num (optimum (take k items) c)"
proof (induction k arbitrary: c)
  case 0
  then show ?case by (simp add: optimum_nil)
next
  case (Suc k)
  let ?w = "weight (items ! k)" and ?v = "val (items ! k)"
  have w: "\<forall>y\<in>set items. 0 \<le> weight y" and v: "\<forall>y\<in>set items. 0 \<le> val y"
    using nn by (simp_all add: nonneg_items_def)
  have tk: "take (Suc k) items = take k items @ [items ! k]"
    using Suc.prems(1) by (simp add: take_Suc_conv_app_nth)
  have wk: "\<forall>y\<in>set (take k items). 0 \<le> weight y" and vk: "\<forall>y\<in>set (take k items). 0 \<le> val y"
    using w v by (auto dest: in_set_takeD)
  have vx: "0 \<le> ?v" using v Suc.prems(1) by simp
  have rec: "optimum (take (Suc k) items) c =
      (if ?w \<le> c then max (optimum (take k items) c) (optimum (take k items) (c - ?w) + ?v)
       else optimum (take k items) c)"
    unfolding tk using wk Suc.prems(2) by (rule optimum_snoc)
  have here: "cellval items k c = Num (optimum (take k items) c)"
    using Suc.prems by (intro Suc.IH) simp_all
  show ?case
  proof (cases "?w \<le> c")
    case True
    have there: "cellval items k (c - ?w) = Num (optimum (take k items) (c - ?w))"
      using True Suc.prems by (intro Suc.IH) simp_all
    have "optimum (take k items) (c - ?w) \<le> sum_val (take k items)"
      "0 \<le> optimum (take k items) (c - ?w)"
      using optimum_bounds[OF vk, of "c - ?w"] True by simp_all
    moreover have "sum_val (take k items) + ?v = sum_val (take (Suc k) items)"
      by (simp add: tk sum_val_def)
    moreover have "sum_val (take (Suc k) items) \<le> sum_val items"
      using v by (rule sum_val_take_le)
    ultimately have "\<bar>optimum (take k items) (c - ?w) + ?v\<bar> \<le> 2 ^ 53"
      using small vx by linarith
    then have "js_add (Num (optimum (take k items) (c - ?w))) ?v =
        Num (optimum (take k items) (c - ?w) + ?v)"
      by (rule js_add_exact)
    then show ?thesis using True here there rec by simp
  next
    case False
    then show ?thesis using here rec by simp
  qed
qed

section \<open>The reconstruction phase\<close>

lemma picked_subseq: "i \<le> length items \<Longrightarrow> subseq (picked items dp i c) (take i items)"
proof (induction i arbitrary: c)
  case 0
  show ?case by simp
next
  case (Suc k)
  then have tk: "take (Suc k) items = take k items @ [items ! k]"
    by (simp add: take_Suc_conv_app_nth)
  have ih: "subseq (picked items dp k c') (take k items)" for c'
    using Suc by simp
  show ?case
    using ih[of c] ih[of "js_sub c (weight (items ! k))"]
    by (simp add: tk subseq_append_iff) (metis append_Nil2 list_emb_Nil subseq_order.order_refl)
qed

lemma subseq_set_subset: "subseq xs ys \<Longrightarrow> set xs \<subseteq> set ys"
  by (induction rule: list_emb.induct) auto



lemma taken_fits:
  assumes w: "\<forall>y\<in>set items. 0 \<le> weight y" and cap: "capacity \<le> 2 ^ 53"
    and k: "Suc k \<le> length items" and c: "0 \<le> c" "c \<le> capacity"
    and neq: "js_neq (get_at (filled items capacity ! Suc k) (Num c))
                     (get_at (filled items capacity ! k) (Num c))"
  shows "weight (items ! k) \<le> c"
proof (rule ccontr)
  assume heavy: "\<not> weight (items ! k) \<le> c"
  have "get_cell (filled items capacity ! Suc k) c = cellval items (Suc k) c"
    using w cap k c by (intro filled_cellval) simp_all
  moreover have "get_cell (filled items capacity ! k) c = cellval items k c"
    using w cap k c by (intro filled_cellval) simp_all
  moreover have "cellval items (Suc k) c = cellval items k c" using heavy by simp
  ultimately show False using neq cellval_number[of items k c] by (simp add: js_neq_number)
qed

lemma residual_exact:
  assumes "0 \<le> w" "w \<le> c" "c \<le> capacity" "capacity \<le> 2 ^ 53"
  shows "js_sub (Num c) w = Num (c - w)"
  using assms by (intro js_sub_exact) simp


lemma bestValue_cellval:
  assumes "\<forall>y\<in>set items. 0 \<le> weight y" "0 \<le> capacity" "capacity \<le> 2 ^ 53"
  shows "get_cell (filled items capacity ! length items) capacity =
           cellval items (length items) capacity"
  using filled_cellval[OF assms(1,3), of "length items" capacity] assms(2) by simp

lemma bestValue_optimum:
  assumes "nonneg_items items" "sum_val items \<le> 2 ^ 53" "0 \<le> capacity" "capacity \<le> 2 ^ 53"
  shows "get_cell (filled items capacity ! length items) capacity = Num (optimum items capacity)"
proof -
  have w: "\<forall>y\<in>set items. 0 \<le> weight y" using assms(1) by (simp add: nonneg_items_def)
  show ?thesis
    using bestValue_cellval[OF w assms(3,4)]
      cellval_optimum[OF assms(1,2), of "length items" capacity] assms(3) by simp
qed

lemma table_fits_small: "table_fits items capacity \<Longrightarrow> capacity \<le> 2 ^ 53"
  by (simp add: table_fits_def)

section \<open>The test data evaluated\<close>

lemma items1_ok: "nonneg_items items1" "distinct_ids items1" "sum_val items1 \<le> 2 ^ 53"
  by (simp_all add: nonneg_items_def distinct_ids_def items1_def sum_val_def)

lemma items1_fits: "table_fits items1 7" "table_fits items1 3" "table_fits items1 0"
  by (simp_all add: table_fits_def items1_def)

lemma solve_items1:
  "solveKnapsack items1 7 =
     Inr \<lparr> bestValue = Num 24, chosenIds = {''b'', ''c''},
           table = [[Num 0, Num 0, Num 0, Num 0, Num 0, Num 0, Num 0, Num 0],
                    [Num 0, Num 1, Num 1, Num 1, Num 1, Num 1, Num 1, Num 1],
                    [Num 0, Num 1, Num 6, Num 7, Num 7, Num 7, Num 7, Num 7],
                    [Num 0, Num 1, Num 6, Num 7, Num 7, Num 18, Num 19, Num 24],
                    [Num 0, Num 1, Num 6, Num 7, Num 7, Num 18, Num 22, Num 24]] \<rparr>"
  by code_simp

lemma too_wide: "solveKnapsack [] 4294967295 = Inl RangeError"
  by (rule solveKnapsack_Inl) (simp add: table_fits_def)

lemma solve_big_items:
  "solveKnapsack big_items 2 =
     Inr \<lparr> bestValue = Num 9007199254740992, chosenIds = {''a''},
           table = [[Num 0, Num 0, Num 0],
                    [Num 0, Num 9007199254740992, Num 9007199254740992],
                    [Num 0, Num 9007199254740992, Num 9007199254740992]] \<rparr>"
  by code_simp


lemma big_items_ok: "nonneg_items big_items" "distinct_ids big_items"
  "nonneg_items big_items3" "distinct_ids big_items3"
  by (simp_all add: nonneg_items_def distinct_ids_def big_items_def big_items3_def)

lemma optimum_big_items: "optimum big_items 2 = 9007199254740993"
  by code_simp

section \<open>The optimal value\<close>

text \<open>
  Claim C1 speaks of every list of items with non-negative integer weights and values
  and of every capacity \<open>\<ge> 0\<close>. Two things stand in the way. The values \<open>2^53\<close> and 1
  fit capacity 2 together, but their sum is not a double: the solver returns \<open>2^53\<close>
  where the optimum is \<open>2^53 + 1\<close>. And at capacity \<open>2^32 - 1\<close> the table cannot be
  allocated: the call ends in a RangeError.
\<close>

theorem best_value_is_optimum_counterexample:
  "nonneg_items big_items \<and> distinct_ids big_items \<and>
   solveKnapsack big_items 2 =
     Inr \<lparr> bestValue = Num 9007199254740992, chosenIds = {''a''},
           table = [[Num 0, Num 0, Num 0],
                    [Num 0, Num 9007199254740992, Num 9007199254740992],
                    [Num 0, Num 9007199254740992, Num 9007199254740992]] \<rparr> \<and>
   optimum big_items 2 = 9007199254740993 \<and>
   solveKnapsack [] 4294967295 = Inl RangeError"
  by (simp only: big_items_ok solve_big_items optimum_big_items too_wide simp_thms)

text \<open>
  Claim C1 as amended. For every list of fewer than \<open>2^32 - 1\<close> items with
  non-negative integer weights and values, the values summing to at most \<open>2^53\<close>, with
  pairwise-distinct ids, and every capacity from 0 to \<open>2^32 - 2\<close>, the solver returns,
  and its \<open>bestValue\<close> is the maximum, over the selections of items (each taken at most
  once) of total weight at most the capacity, of the total value.
\<close>

theorem best_value_is_optimum:
  assumes "nonneg_items items" "distinct_ids items" "0 \<le> capacity"
    and "table_fits items capacity" "sum_val items \<le> 2 ^ 53"
  shows "\<exists>sol. solveKnapsack items capacity = Inr sol \<and>
           bestValue sol = Num (optimum items capacity)"
  using assms(3,4) bestValue_optimum[OF assms(1,5,3) table_fits_small[OF assms(4)]]
  by (simp add: solveKnapsack_Inr)

theorem best_value_is_optimum_witness:
  "(\<exists>sol. solveKnapsack items1 7 = Inr sol \<and> bestValue sol = Num (optimum items1 7)) \<and>
   optimum items1 7 = 24"
proof
  show "\<exists>sol. solveKnapsack items1 7 = Inr sol \<and> bestValue sol = Num (optimum items1 7)"
    using items1_ok items1_fits by (intro best_value_is_optimum) simp_all
  show "optimum items1 7 = 24"
    by code_simp
qed

text \<open>
  Claim C2 fails on the same two inputs as C1: with the values \<open>2^53\<close> and 1 the cell
  \<open>table[2][2]\<close> is \<open>2^53\<close>, not the optimum \<open>2^53 + 1\<close>; and at capacity \<open>2^32 - 1\<close>
  there is no table.
\<close>

theorem table_cells_are_optima_counterexample:
  "nonneg_items big_items \<and>
   solveKnapsack big_items 2 =
     Inr \<lparr> bestValue = Num 9007199254740992, chosenIds = {''a''},
           table = [[Num 0, Num 0, Num 0],
                    [Num 0, Num 9007199254740992, Num 9007199254740992],
                    [Num 0, Num 9007199254740992, Num 9007199254740992]] \<rparr> \<and>
   optimum (take 2 big_items) 2 = 9007199254740993 \<and>
   solveKnapsack [free_item] 4294967295 = Inl RangeError"
proof -
  have "take 2 big_items = big_items" by (simp add: big_items_def)
  moreover have "solveKnapsack [free_item] 4294967295 = Inl RangeError"
    by (rule solveKnapsack_Inl) (simp add: table_fits_def)
  ultimately show ?thesis
    by (simp only: big_items_ok solve_big_items optimum_big_items simp_thms)
qed

text \<open>
  Claim C2 as amended. For every input with fewer than \<open>2^32 - 1\<close> items, capacity from
  0 to \<open>2^32 - 2\<close>, and non-negative weights and values, the values summing to at most
  \<open>2^53\<close>, and for all \<open>0 \<le> i \<le> n\<close> and \<open>0 \<le> c \<le> capacity\<close>, the cell \<open>table[i][c]\<close> of
  the returned table is the maximum total value of a selection among the first \<open>i\<close>
  items of total weight at most \<open>c\<close>; and \<open>bestValue\<close> is \<open>table[n][capacity]\<close>.
\<close>

theorem table_cells_are_optima:
  assumes "nonneg_items items" "0 \<le> capacity"
    and "table_fits items capacity" "sum_val items \<le> 2 ^ 53"
  shows "\<exists>sol. solveKnapsack items capacity = Inr sol \<and>
           (\<forall>i c. i \<le> length items \<and> 0 \<le> c \<and> c \<le> capacity \<longrightarrow>
              get_cell (table sol ! i) c = Num (optimum (take i items) c)) \<and>
           bestValue sol = get_cell (table sol ! length items) capacity"
proof -
  have w: "\<forall>y\<in>set items. 0 \<le> weight y" using assms(1) by (simp add: nonneg_items_def)
  have "get_cell (filled items capacity ! i) c = Num (optimum (take i items) c)"
    if "i \<le> length items" "0 \<le> c" "c \<le> capacity" for i c
    using filled_cellval[OF w table_fits_small[OF assms(3)] that]
      cellval_optimum[OF assms(1,4) that(1,2)] by simp
  then show ?thesis
    using assms(2,3) by (simp add: solveKnapsack_Inr)
qed

theorem table_cells_are_optima_witness:
  "\<exists>sol. solveKnapsack items1 7 = Inr sol \<and>
     get_cell (table sol ! 3) 6 = Num (optimum (take 3 items1) 6) \<and>
     bestValue sol = get_cell (table sol ! length items1) 7"
proof -
  obtain sol where s: "solveKnapsack items1 7 = Inr sol"
    and cells: "\<forall>i c. i \<le> length items1 \<and> 0 \<le> c \<and> c \<le> 7 \<longrightarrow>
              get_cell (table sol ! i) c = Num (optimum (take i items1) c)"
    and best: "bestValue sol = get_cell (table sol ! length items1) 7"
    using table_cells_are_optima[of items1 7] items1_ok(1,3) items1_fits(1) by auto
  have "length items1 = 4" by (simp add: items1_def)
  then have "get_cell (table sol ! 3) 6 = Num (optimum (take 3 items1) 6)"
    using cells by simp
  with s best show ?thesis by simp
qed

section \<open>The chosen selection\<close>




section \<open>The backtrace\<close>

lemma filled_nth:
  assumes "\<forall>y\<in>set items. 0 \<le> weight y" "capacity \<le> 2 ^ 53"
    and "j \<le> length items" "0 \<le> c" "c \<le> capacity"
  shows "filled items capacity ! j ! nat c = cellval items j c"
  using filled_cellval[OF assms] assms(3-5) by (simp add: get_cell_def filled_row_length)

lemma js_neq_filled:
  assumes "\<forall>y\<in>set items. 0 \<le> weight y" "capacity \<le> 2 ^ 53"
    and "Suc k \<le> length items" "0 \<le> c" "c \<le> capacity"
  shows "js_neq (get_at (filled items capacity ! Suc k) (Num c))
                (get_at (filled items capacity ! k) (Num c))
     \<longleftrightarrow> filled items capacity ! Suc k ! nat c \<noteq> filled items capacity ! k ! nat c"
proof -
  have "get_cell (filled items capacity ! Suc k) c = cellval items (Suc k) c"
    using assms by (intro filled_cellval) simp_all
  moreover have "get_cell (filled items capacity ! k) c = cellval items k c"
    using assms by (intro filled_cellval) simp_all
  moreover have "filled items capacity ! Suc k ! nat c = cellval items (Suc k) c"
    using assms by (intro filled_nth) simp_all
  moreover have "filled items capacity ! k ! nat c = cellval items k c"
    using assms by (intro filled_nth) simp_all
  ultimately show ?thesis
    using js_neq_number[OF cellval_number[of items "Suc k" c] cellval_number[of items k c]]
    by simp
qed

lemma backtrace_rows: "map fst (backtrace_spec tbl items i c) = rev [1..<Suc i]"
  by (induction i arbitrary: c) simp_all

lemma backtrace_flag:
  "(j, c', inc) \<in> set (backtrace_spec tbl items i c) \<Longrightarrow>
     1 \<le> j \<and> j \<le> i \<and> inc = (tbl ! j ! nat c' \<noteq> tbl ! (j - 1) ! nat c')"
proof (induction i arbitrary: c)
  case 0
  then show ?case by simp
next
  case (Suc k)
  show ?case
  proof (cases "j = Suc k")
    case True
    have "j \<notin> set (map fst (backtrace_spec tbl items k c2))" for c2
      using True by (simp add: backtrace_rows)
    then have "(j, c', inc) \<notin> set (backtrace_spec tbl items k c2)" for c2
      by force
    then show ?thesis using Suc.prems True by (auto split: if_splits)
  next
    case False
    then obtain c2 where "(j, c', inc) \<in> set (backtrace_spec tbl items k c2)"
      using Suc.prems by (auto split: if_splits)
    then show ?thesis using Suc.IH by fastforce
  qed
qed

lemma backtrace_unique:
  assumes "(j, c1, b1) \<in> set (backtrace_spec tbl items i c)"
    and "(j, c2, b2) \<in> set (backtrace_spec tbl items i c)"
  shows "c1 = c2 \<and> b1 = b2"
proof -
  have "distinct (map fst (backtrace_spec tbl items i c))"
    by (simp add: backtrace_rows)
  then have "(c1, b1) = (c2, b2)" using assms by (rule eq_key_imp_eq_value)
  then show ?thesis by simp
qed

lemma backtrace_bounds:
  assumes w: "\<forall>y\<in>set items. 0 \<le> weight y" and cap: "capacity \<le> 2 ^ 53"
  shows "i \<le> length items \<Longrightarrow> 0 \<le> c \<Longrightarrow> c \<le> capacity \<Longrightarrow>
    (j, c', inc) \<in> set (backtrace_spec (filled items capacity) items i c) \<Longrightarrow>
    0 \<le> c' \<and> c' \<le> c"
proof (induction i arbitrary: c)
  case 0
  then show ?case by simp
next
  case (Suc k)
  let ?T = "filled items capacity"
  have eqv: "js_neq (get_at (?T ! Suc k) (Num c)) (get_at (?T ! k) (Num c)) \<longleftrightarrow>
      ?T ! Suc k ! nat c \<noteq> ?T ! k ! nat c"
    using w cap Suc.prems(1-3) by (intro js_neq_filled) simp_all
  show ?case
  proof (cases "(j, c', inc) \<in> {(Suc k, c, True), (Suc k, c, False)}")
    case True
    then show ?thesis using Suc.prems by auto
  next
    case False
    show ?thesis
    proof (cases "?T ! Suc k ! nat c \<noteq> ?T ! k ! nat c")
      case True
      then have fits: "weight (items ! k) \<le> c"
        using w cap Suc.prems(1-3) eqv by (intro taken_fits[of items capacity k c]) simp_all
      have wk: "0 \<le> weight (items ! k)" using w Suc.prems(1) by simp
      have "(j, c', inc) \<in> set (backtrace_spec ?T items k (c - weight (items ! k)))"
        using Suc.prems(4) False True by auto
      then have "0 \<le> c' \<and> c' \<le> c - weight (items ! k)"
        using fits wk Suc.prems(1-3) by (intro Suc.IH) simp_all
      then show ?thesis using wk by simp
    next
      case nt: False
      then have "(j, c', inc) \<in> set (backtrace_spec ?T items k c)"
        using Suc.prems(4) False by auto
      then show ?thesis using Suc.prems(1-3) by (intro Suc.IH) simp_all
    qed
  qed
qed

lemma picked_backtrace:
  assumes w: "\<forall>y\<in>set items. 0 \<le> weight y" and cap: "capacity \<le> 2 ^ 53"
  shows "i \<le> length items \<Longrightarrow> 0 \<le> c \<Longrightarrow> c \<le> capacity \<Longrightarrow>
    ident ` set (picked items (filled items capacity) i (Num c)) =
      included_ids items (backtrace_spec (filled items capacity) items i c)"
proof (induction i arbitrary: c)
  case 0
  show ?case by (simp add: included_ids_def)
next
  case (Suc k)
  let ?T = "filled items capacity"
  have eqv: "js_neq (get_at (?T ! Suc k) (Num c)) (get_at (?T ! k) (Num c)) \<longleftrightarrow>
      ?T ! Suc k ! nat c \<noteq> ?T ! k ! nat c"
    using w cap Suc.prems(1-3) by (intro js_neq_filled) simp_all
  show ?case
  proof (cases "?T ! Suc k ! nat c \<noteq> ?T ! k ! nat c")
    case True
    then have fits: "weight (items ! k) \<le> c"
      using w cap Suc.prems(1-3) eqv by (intro taken_fits[of items capacity k c]) simp_all
    have wk: "0 \<le> weight (items ! k)" using w Suc.prems(1) by simp
    have res: "js_sub (Num c) (weight (items ! k)) = Num (c - weight (items ! k))"
      using wk fits Suc.prems(3) cap by (rule residual_exact)
    have "ident ` set (picked items ?T k (Num (c - weight (items ! k)))) =
        included_ids items (backtrace_spec ?T items k (c - weight (items ! k)))"
      using fits wk Suc.prems by (intro Suc.IH) simp_all
    then show ?thesis
      using True eqv res by (simp add: included_ids_def del: js_sub.simps)
  next
    case False
    have "ident ` set (picked items ?T k (Num c)) = included_ids items (backtrace_spec ?T items k c)"
      using Suc.prems by (intro Suc.IH) simp_all
    then show ?thesis using False eqv by (simp add: included_ids_def)
  qed
qed

lemma included_iff:
  assumes d: "distinct_ids items"
    and st: "(j, c', inc) \<in> set (backtrace_spec tbl items (length items) c)"
  shows "ident (items ! (j - 1)) \<in> included_ids items (backtrace_spec tbl items (length items) c)
     \<longleftrightarrow> inc"
proof
  assume inc
  then have "(j, c', inc) \<in> set (filter (\<lambda>(i, c, inc). inc) (backtrace_spec tbl items (length items) c))"
    using st by simp
  then show "ident (items ! (j - 1)) \<in> included_ids items (backtrace_spec tbl items (length items) c)"
    unfolding included_ids_def by force
next
  assume "ident (items ! (j - 1)) \<in> included_ids items (backtrace_spec tbl items (length items) c)"
  then obtain j2 c2 where st2: "(j2, c2, True) \<in> set (backtrace_spec tbl items (length items) c)"
    and same: "ident (items ! (j2 - 1)) = ident (items ! (j - 1))"
    unfolding included_ids_def by auto
  have j: "1 \<le> j" "j \<le> length items" using backtrace_flag[OF st] by simp_all
  have j2: "1 \<le> j2" "j2 \<le> length items" using backtrace_flag[OF st2] by simp_all
  have "(map ident items ! (j2 - 1) = map ident items ! (j - 1)) = (j2 - 1 = j - 1)"
    using d j j2 unfolding distinct_ids_def by (intro nth_eq_iff_index_eq) simp_all
  then have "j2 - 1 = j - 1"
    using same j j2 by simp
  then have "j2 = j" using j(1) j2(1) by simp
  then show inc using backtrace_unique[OF st2[unfolded \<open>j2 = j\<close>] st] by simp
qed

text \<open>
  Claim C4 speaks of every input meeting the preconditions; at capacity \<open>2^32 - 1\<close> the
  solver returns no \<open>chosenIds\<close> at all, but a RangeError.
\<close>

theorem chosen_ids_are_the_backtrace_counterexample:
  "nonneg_items tie_items \<and> distinct_ids tie_items \<and>
   solveKnapsack tie_items 4294967295 = Inl RangeError"
proof -
  have "solveKnapsack tie_items 4294967295 = Inl RangeError"
    by (rule solveKnapsack_Inl) (simp add: table_fits_def)
  then show ?thesis by (simp add: nonneg_items_def distinct_ids_def tie_items_def)
qed

text \<open>
  Claim C4 as amended. For every input meeting the preconditions, with fewer than
  \<open>2^32 - 1\<close> items and capacity at most \<open>2^32 - 2\<close>, \<open>chosenIds\<close> is the backtrace
  through the returned table as the specification words it: walking \<open>i\<close> from \<open>n\<close>
  down to 1 with the residual capacity \<open>c\<close> starting at the capacity, the id of item
  \<open>i\<close> is in \<open>chosenIds\<close> if and only if \<open>table[i][c] \<noteq> table[i-1][c]\<close> at the step
  that examines it; and whenever including item \<open>i\<close> ties with excluding it there
  (\<open>table[i-1][c - w] + v = table[i-1][c]\<close> with \<open>w \<le> c\<close>), its id is not in \<open>chosenIds\<close>.
\<close>

theorem chosen_ids_are_the_backtrace:
  assumes "nonneg_items items" "distinct_ids items" "0 \<le> capacity"
    and "table_fits items capacity"
  shows "\<exists>sol. solveKnapsack items capacity = Inr sol \<and>
           chosenIds sol =
             included_ids items (backtrace_spec (table sol) items (length items) capacity) \<and>
           map fst (backtrace_spec (table sol) items (length items) capacity) =
             rev [1..<Suc (length items)] \<and>
           (\<forall>i c inc. (i, c, inc) \<in> set (backtrace_spec (table sol) items (length items) capacity) \<longrightarrow>
              (ident (items ! (i - 1)) \<in> chosenIds sol \<longleftrightarrow>
                 table sol ! i ! nat c \<noteq> table sol ! (i - 1) ! nat c) \<and>
              (weight (items ! (i - 1)) \<le> c \<and>
               js_add (get_cell (table sol ! (i - 1)) (c - weight (items ! (i - 1)))) (val (items ! (i - 1)))
                 = get_cell (table sol ! (i - 1)) c
               \<longrightarrow> ident (items ! (i - 1)) \<notin> chosenIds sol))"
proof -
  let ?T = "filled items capacity"
  let ?bt = "backtrace_spec ?T items (length items) capacity"
  have w: "\<forall>y\<in>set items. 0 \<le> weight y" using assms(1) by (simp add: nonneg_items_def)
  have cap: "capacity \<le> 2 ^ 53" using assms(4) by (rule table_fits_small)
  have ids: "ident ` set (picked items ?T (length items) (Num capacity)) = included_ids items ?bt"
    using assms(3) by (intro picked_backtrace[OF w cap]) simp_all
  have step: "(ident (items ! (i - 1)) \<in> included_ids items ?bt \<longleftrightarrow>
                 ?T ! i ! nat c \<noteq> ?T ! (i - 1) ! nat c) \<and>
              (weight (items ! (i - 1)) \<le> c \<and>
               js_add (get_cell (?T ! (i - 1)) (c - weight (items ! (i - 1)))) (val (items ! (i - 1)))
                 = get_cell (?T ! (i - 1)) c
               \<longrightarrow> ident (items ! (i - 1)) \<notin> included_ids items ?bt)"
    if st: "(i, c, inc) \<in> set ?bt" for i c inc
  proof -
    have i: "1 \<le> i" "i \<le> length items" and flag: "inc = (?T ! i ! nat c \<noteq> ?T ! (i - 1) ! nat c)"
      using backtrace_flag[OF st] by simp_all
    have c: "0 \<le> c" "c \<le> capacity"
      using backtrace_bounds[OF w cap _ assms(3) _ st] by simp_all
    have mem: "ident (items ! (i - 1)) \<in> included_ids items ?bt \<longleftrightarrow> inc"
      using assms(2) st by (rule included_iff)
    have tie: "\<not> inc"
      if fits: "weight (items ! (i - 1)) \<le> c"
        and eq: "js_add (get_cell (?T ! (i - 1)) (c - weight (items ! (i - 1)))) (val (items ! (i - 1)))
                 = get_cell (?T ! (i - 1)) c"
    proof -
      obtain k where k: "i = Suc k" using i(1) by (cases i) simp_all
      have wk: "0 \<le> weight (items ! k)" using w i(2) k by simp
      have lo: "get_cell (?T ! k) c = cellval items k c"
        using w cap i(2) c k by (intro filled_cellval) simp_all
      have lo': "get_cell (?T ! k) (c - weight (items ! k)) =
          cellval items k (c - weight (items ! k))"
      proof (rule filled_cellval[OF w cap])
        show "k \<le> length items" using i(2) k by simp
        show "0 \<le> c - weight (items ! k)" using fits k by simp
        show "c - weight (items ! k) \<le> capacity" using wk c(2) by simp
      qed
      have "js_add (cellval items k (c - weight (items ! k))) (val (items ! k)) = cellval items k c"
        using eq lo lo' k by simp
      then have "cellval items (Suc k) c = cellval items k c"
        using fits k js_max_same[OF cellval_number[of items k c]] by simp
      moreover have "?T ! Suc k ! nat c = cellval items (Suc k) c"
        using w cap i(2) c k by (intro filled_nth) simp_all
      moreover have "?T ! k ! nat c = cellval items k c"
        using w cap i(2) c k by (intro filled_nth) simp_all
      ultimately show ?thesis using flag k by simp
    qed
    show ?thesis using mem flag tie by blast
  qed
  let ?sol = "\<lparr> bestValue = get_cell (?T ! length items) capacity,
                chosenIds = ident ` set (picked items ?T (length items) (Num capacity)),
                table = ?T \<rparr>"
  have sol: "solveKnapsack items capacity = Inr ?sol"
    using assms(3,4) by (simp add: solveKnapsack_Inr)
  have sel: "table ?sol = ?T" "chosenIds ?sol = included_ids items ?bt"
    by (simp_all add: ids)
  have all: "\<forall>i c inc. (i, c, inc) \<in> set ?bt \<longrightarrow>
      (ident (items ! (i - 1)) \<in> included_ids items ?bt \<longleftrightarrow>
                 ?T ! i ! nat c \<noteq> ?T ! (i - 1) ! nat c) \<and>
              (weight (items ! (i - 1)) \<le> c \<and>
               js_add (get_cell (?T ! (i - 1)) (c - weight (items ! (i - 1)))) (val (items ! (i - 1)))
                 = get_cell (?T ! (i - 1)) c
               \<longrightarrow> ident (items ! (i - 1)) \<notin> included_ids items ?bt)"
    using step by blast
  show ?thesis
    by (rule exI[of _ ?sol], simp only: sel sol backtrace_rows simp_thms, rule all)
qed

lemma tie_items_ok: "nonneg_items tie_items" "distinct_ids tie_items"
  by (simp_all add: nonneg_items_def distinct_ids_def tie_items_def)

lemma tie_items_fits: "table_fits tie_items 1"
  by (simp add: table_fits_def tie_items_def)

lemma solve_tie_items:
  "solveKnapsack tie_items 1 =
     Inr \<lparr> bestValue = Num 1, chosenIds = {''x''},
           table = [[Num 0, Num 0], [Num 0, Num 1], [Num 0, Num 1]] \<rparr>"
  by code_simp

lemma backtrace_tie_items:
  "backtrace_spec [[Num 0, Num 0], [Num 0, Num 1], [Num 0, Num 1]] tie_items 2 1 =
     [(2, 1, False), (1, 1, True)]"
  by code_simp

theorem chosen_ids_are_the_backtrace_witness:
  "\<exists>sol. solveKnapsack tie_items 1 = Inr sol \<and>
     chosenIds sol = included_ids tie_items (backtrace_spec (table sol) tie_items 2 1) \<and>
     ''x'' \<in> chosenIds sol \<and> ''y'' \<notin> chosenIds sol"
proof -
  have len: "length tie_items = 2" by (simp add: tie_items_def)
  have cap: "(0::int) \<le> 1" by simp
  obtain sol where all: "solveKnapsack tie_items 1 = Inr sol \<and>
      chosenIds sol =
        included_ids tie_items (backtrace_spec (table sol) tie_items (length tie_items) 1) \<and>
      map fst (backtrace_spec (table sol) tie_items (length tie_items) 1) =
        rev [1..<Suc (length tie_items)] \<and>
      (\<forall>i c inc. (i, c, inc) \<in> set (backtrace_spec (table sol) tie_items (length tie_items) 1) \<longrightarrow>
              (ident (tie_items ! (i - 1)) \<in> chosenIds sol \<longleftrightarrow>
                 table sol ! i ! nat c \<noteq> table sol ! (i - 1) ! nat c) \<and>
              (weight (tie_items ! (i - 1)) \<le> c \<and>
               js_add (get_cell (table sol ! (i - 1)) (c - weight (tie_items ! (i - 1)))) (val (tie_items ! (i - 1)))
                 = get_cell (table sol ! (i - 1)) c
               \<longrightarrow> ident (tie_items ! (i - 1)) \<notin> chosenIds sol))"
    using chosen_ids_are_the_backtrace[OF tie_items_ok cap tie_items_fits] ..
  note s = all[THEN conjunct1]
    and ids = all[THEN conjunct2, THEN conjunct1]
    and steps = all[THEN conjunct2, THEN conjunct2, THEN conjunct2]
  have tbl: "table sol = [[Num 0, Num 0], [Num 0, Num 1], [Num 0, Num 1]]"
    using s solve_tie_items by auto
  have bt: "backtrace_spec (table sol) tie_items (length tie_items) 1 = [(2, 1, False), (1, 1, True)]"
    unfolding tbl len by (rule backtrace_tie_items)
  have in2: "(2, 1, False) \<in> set (backtrace_spec (table sol) tie_items (length tie_items) 1)"
    and in1: "(1, 1, True) \<in> set (backtrace_spec (table sol) tie_items (length tie_items) 1)"
    unfolding bt by simp_all
  have tie: "weight (tie_items ! (2 - 1)) \<le> 1 \<and>
        js_add (get_cell (table sol ! (2 - 1)) (1 - weight (tie_items ! (2 - 1)))) (val (tie_items ! (2 - 1)))
          = get_cell (table sol ! (2 - 1)) 1"
    unfolding tbl by (simp add: tie_items_def get_cell_def fl_exact)
  have y: "ident (tie_items ! (2 - 1)) \<notin> chosenIds sol"
    using steps[rule_format, OF in2, THEN conjunct2, THEN mp, OF tie] .
  have differ: "table sol ! 1 ! nat 1 \<noteq> table sol ! (1 - 1) ! nat 1"
    unfolding tbl by simp
  have x: "ident (tie_items ! (1 - 1)) \<in> chosenIds sol"
    using steps[rule_format, OF in1, THEN conjunct1, THEN iffD2, OF differ] .
  have x': "''x'' \<in> chosenIds sol" using x by (simp add: tie_items_def)
  have y': "''y'' \<notin> chosenIds sol" using y by (simp add: tie_items_def)
  show ?thesis
    by (intro exI[of _ sol] conjI s ids[unfolded len] x' y')
qed

section \<open>Monotonicity\<close>

lemma table_fits_le: "table_fits items c2 \<Longrightarrow> c1 \<le> c2 \<Longrightarrow> table_fits items c1"
  by (simp add: table_fits_def)

lemma table_fits_shorter: "table_fits (items @ ys) capacity \<Longrightarrow> table_fits items capacity"
  by (simp add: table_fits_def)

text \<open>
  Claim C5 compares the results at any two capacities \<open>0 \<le> c1 \<le> c2\<close>; at \<open>c1 = 7\<close> and
  \<open>c2 = 2^32 - 1\<close> the first call returns and the second ends in a RangeError.
\<close>

theorem best_value_monotone_in_capacity_counterexample:
  "nonneg_items items1 \<and> distinct_ids items1 \<and>
   solveKnapsack items1 7 =
     Inr \<lparr> bestValue = Num 24, chosenIds = {''b'', ''c''},
           table = [[Num 0, Num 0, Num 0, Num 0, Num 0, Num 0, Num 0, Num 0],
                    [Num 0, Num 1, Num 1, Num 1, Num 1, Num 1, Num 1, Num 1],
                    [Num 0, Num 1, Num 6, Num 7, Num 7, Num 7, Num 7, Num 7],
                    [Num 0, Num 1, Num 6, Num 7, Num 7, Num 18, Num 19, Num 24],
                    [Num 0, Num 1, Num 6, Num 7, Num 7, Num 18, Num 22, Num 24]] \<rparr> \<and>
   solveKnapsack items1 4294967295 = Inl RangeError"
proof -
  have "solveKnapsack items1 4294967295 = Inl RangeError"
    by (rule solveKnapsack_Inl) (simp add: table_fits_def)
  then show ?thesis by (simp only: items1_ok solve_items1 simp_thms)
qed

text \<open>
  Claim C5 as amended. For a fixed list of items meeting the preconditions, fewer than
  \<open>2^32 - 1\<close> of them, and capacities \<open>0 \<le> c1 \<le> c2 \<le> 2^32 - 2\<close>, both calls return and
  the \<open>bestValue\<close> at \<open>c1\<close> is at most the \<open>bestValue\<close> at \<open>c2\<close> (also when sums are
  rounded or overflow: rounding is monotone).
\<close>

theorem best_value_monotone_in_capacity:
  assumes "nonneg_items items" "distinct_ids items" "0 \<le> c1" "c1 \<le> c2"
    and "table_fits items c2"
  shows "\<exists>sol1 sol2. solveKnapsack items c1 = Inr sol1 \<and> solveKnapsack items c2 = Inr sol2 \<and>
           js_le (bestValue sol1) (bestValue sol2)"
proof -
  have w: "\<forall>y\<in>set items. 0 \<le> weight y" and v: "\<forall>y\<in>set items. 0 \<le> val y"
    using assms(1) by (simp_all add: nonneg_items_def)
  have fits1: "table_fits items c1" using assms(5,4) by (rule table_fits_le)
  have "js_le (cellval items (length items) c1) (cellval items (length items) c2)"
    using assms(4) by (intro cellval_mono[OF v]) simp_all
  then have "js_le (get_cell (filled items c1 ! length items) c1)
                   (get_cell (filled items c2 ! length items) c2)"
    using bestValue_cellval[OF w assms(3) table_fits_small[OF fits1]]
      bestValue_cellval[OF w _ table_fits_small[OF assms(5)]] assms(3,4) by simp
  then show ?thesis
    using assms(3,4,5) fits1 by (simp add: solveKnapsack_Inr)
qed

theorem best_value_monotone_in_capacity_witness:
  "\<exists>sol1 sol2. solveKnapsack items1 3 = Inr sol1 \<and> solveKnapsack items1 7 = Inr sol2 \<and>
     js_le (bestValue sol1) (bestValue sol2)"
  using items1_ok items1_fits by (intro best_value_monotone_in_capacity) simp_all

text \<open>
  Claim C6 speaks of every capacity \<open>\<ge> 0\<close>; at capacity \<open>2^32 - 1\<close> the call with the
  added item ends in a RangeError.
\<close>

theorem adding_an_item_never_decreases_counterexample:
  "nonneg_items [] \<and> distinct_ids [] \<and> 0 \<le> weight free_item \<and> 0 \<le> val free_item \<and>
   solveKnapsack ([] @ [free_item]) 4294967295 = Inl RangeError"
proof -
  have "solveKnapsack ([] @ [free_item]) 4294967295 = Inl RangeError"
    by (rule solveKnapsack_Inl) (simp add: table_fits_def)
  then show ?thesis by (simp add: nonneg_items_def distinct_ids_def free_item_def)
qed

text \<open>
  Claim C6 as amended. For a list of items meeting the preconditions, one more item of
  non-negative weight and value appended to it, fewer than \<open>2^32 - 1\<close> items in all, and
  a fixed capacity from 0 to \<open>2^32 - 2\<close>, both calls return and the \<open>bestValue\<close> of the
  longer list is at least that of the shorter one.
\<close>

theorem adding_an_item_never_decreases:
  assumes "nonneg_items items" "distinct_ids items" "0 \<le> weight extra" "0 \<le> val extra"
    and "0 \<le> capacity" "table_fits (items @ [extra]) capacity"
  shows "\<exists>sol sol'. solveKnapsack items capacity = Inr sol \<and>
           solveKnapsack (items @ [extra]) capacity = Inr sol' \<and>
           js_le (bestValue sol) (bestValue sol')"
proof -
  let ?n = "length items" and ?more = "items @ [extra]"
  have w: "\<forall>y\<in>set items. 0 \<le> weight y" using assms(1) by (simp add: nonneg_items_def)
  have w': "\<forall>y\<in>set ?more. 0 \<le> weight y" using w assms(3) by simp
  have fits: "table_fits items capacity" using assms(6) by (rule table_fits_shorter)
  have cap: "capacity \<le> 2 ^ 53" using fits by (rule table_fits_small)
  have same: "cellval ?more ?n c = cellval items ?n c" for c
    by (rule cellval_prefix) simp
  have "js_le (cellval items ?n capacity) (cellval ?more (Suc ?n) capacity)"
    using js_le_max1[OF cellval_number js_add_number[OF cellval_number]]
      js_le_refl[OF cellval_number]
    by (simp add: same)
  moreover have "get_cell (filled ?more capacity ! length ?more) capacity =
      cellval ?more (length ?more) capacity"
    using w' assms(5) cap by (rule bestValue_cellval)
  ultimately have "js_le (get_cell (filled items capacity ! ?n) capacity)
                   (get_cell (filled ?more capacity ! length ?more) capacity)"
    using bestValue_cellval[OF w assms(5) cap] by simp
  then show ?thesis
    using assms(5,6) fits by (simp add: solveKnapsack_Inr)
qed

theorem adding_an_item_never_decreases_witness:
  "\<exists>sol sol'. solveKnapsack items1 7 = Inr sol \<and>
     solveKnapsack (items1 @ [free_item]) 7 = Inr sol' \<and>
     js_le (bestValue sol) (bestValue sol')"
proof (rule adding_an_item_never_decreases)
  show "table_fits (items1 @ [free_item]) 7" by (simp add: table_fits_def items1_def)
qed (simp_all add: items1_ok free_item_def)

section \<open>Zero capacity and the base cases\<close>

lemma cellval_zero_column:
  assumes "\<forall>y\<in>set items. 0 \<le> weight y" "no_free_items items"
  shows "k \<le> length items \<Longrightarrow> cellval items k 0 = Num 0"
proof (induction k)
  case 0
  show ?case by simp
next
  case (Suc k)
  then have "0 \<le> weight (items ! k)" "weight (items ! k) = 0 \<longrightarrow> val (items ! k) = 0"
    using assms by (simp_all add: no_free_items_def)
  then show ?case using Suc by (auto simp: fl_exact)
qed

lemma picked_zero:
  assumes w: "\<forall>y\<in>set items. 0 \<le> weight y" and nf: "no_free_items items"
    and cap: "0 \<le> capacity" "capacity \<le> 2 ^ 53"
  shows "i \<le> length items \<Longrightarrow> picked items (filled items capacity) i (Num 0) = []"
proof (induction i)
  case 0
  show ?case by simp
next
  case (Suc k)
  have "get_cell (filled items capacity ! Suc k) 0 = Num 0"
    using filled_cellval[OF w cap(2), of "Suc k" 0] cellval_zero_column[OF w nf, of "Suc k"]
      Suc.prems cap(1) by simp
  moreover have "get_cell (filled items capacity ! k) 0 = Num 0"
    using filled_cellval[OF w cap(2), of k 0] cellval_zero_column[OF w nf, of k]
      Suc.prems cap(1) by simp
  ultimately show ?case using Suc by (simp add: js_neq_def)
qed

text \<open>
  Claim C7 says that capacity 0 gives \<open>bestValue = 0\<close> and an empty \<open>chosenIds\<close> for every
  non-empty list of items with non-negative weights and values, and that row 0 and
  column 0 of the table are all zeros for every input meeting the preconditions. An item
  of weight 0 and positive value refutes the first and the last part: it fits a budget
  of 0. And at a capacity of \<open>2^32 - 1\<close> or more there is no table to speak of.
\<close>

theorem zero_capacity_gives_zero_counterexample:
  "solveKnapsack [free_item] 0 =
     Inr \<lparr> bestValue = Num 5, chosenIds = {''z''}, table = [[Num 0], [Num 5]] \<rparr> \<and>
   nonneg_items [free_item] \<and>
   solveKnapsack [free_item] 4294967296 = Inl RangeError"
proof -
  have "solveKnapsack [free_item] 0 =
     Inr \<lparr> bestValue = Num 5, chosenIds = {''z''}, table = [[Num 0], [Num 5]] \<rparr>"
    by code_simp
  moreover have "solveKnapsack [free_item] 4294967296 = Inl RangeError"
    by (rule solveKnapsack_Inl) (simp add: table_fits_def)
  moreover have "nonneg_items [free_item]" by (simp add: nonneg_items_def free_item_def)
  ultimately show ?thesis by (simp only: simp_thms)
qed

text \<open>
  Claim C7 as amended. For every input meeting the preconditions, with fewer than
  \<open>2^32 - 1\<close> items and capacity at most \<open>2^32 - 2\<close>, row 0 of the returned table is all
  zeros. When moreover no item is free (every item of weight 0 has value 0, as when all
  weights are positive), column 0 is all zeros, and capacity 0 gives \<open>bestValue = 0\<close> and
  an empty \<open>chosenIds\<close>.
\<close>

theorem base_cases_are_zero:
  assumes "nonneg_items items" "0 \<le> capacity" "table_fits items capacity"
  shows "\<exists>sol. solveKnapsack items capacity = Inr sol \<and>
           (\<forall>c. 0 \<le> c \<and> c \<le> capacity \<longrightarrow> get_cell (table sol ! 0) c = Num 0) \<and>
           (no_free_items items \<longrightarrow>
              (\<forall>i. i \<le> length items \<longrightarrow> get_cell (table sol ! i) 0 = Num 0) \<and>
              (capacity = 0 \<longrightarrow> bestValue sol = Num 0 \<and> chosenIds sol = {}))"
proof -
  have w: "\<forall>y\<in>set items. 0 \<le> weight y" using assms(1) by (simp add: nonneg_items_def)
  have cap: "capacity \<le> 2 ^ 53" using assms(3) by (rule table_fits_small)
  have row0: "get_cell (filled items capacity ! 0) c = Num 0" if "0 \<le> c" "c \<le> capacity" for c
    using that by (simp add: filled_row0 get_cell_def)
  have col0: "get_cell (filled items capacity ! i) 0 = Num 0"
    if "no_free_items items" "i \<le> length items" for i
    using filled_cellval[OF w cap that(2), of 0] cellval_zero_column[OF w that] assms(2) by simp
  have none: "picked items (filled items capacity) (length items) (Num 0) = []"
    if "no_free_items items"
    using picked_zero[OF w that assms(2) cap, of "length items"] by simp
  show ?thesis
    using assms(2,3) row0 col0 none by (auto simp: solveKnapsack_Inr)
qed

theorem base_cases_are_zero_witness:
  "\<exists>sol. solveKnapsack items1 0 = Inr sol \<and> get_cell (table sol ! 0) 0 = Num 0 \<and>
     get_cell (table sol ! 4) 0 = Num 0 \<and> bestValue sol = Num 0 \<and> chosenIds sol = {}"
proof -
  have nf: "no_free_items items1" by (simp add: no_free_items_def items1_def)
  have len: "length items1 = 4" by (simp add: items1_def)
  obtain sol where "solveKnapsack items1 0 = Inr sol"
    "\<forall>c. 0 \<le> c \<and> c \<le> 0 \<longrightarrow> get_cell (table sol ! 0) c = Num 0"
    "\<forall>i. i \<le> length items1 \<longrightarrow> get_cell (table sol ! i) 0 = Num 0"
    "bestValue sol = Num 0" "chosenIds sol = {}"
    using base_cases_are_zero[of items1 0] items1_ok(1) items1_fits(3) nf by auto
  then show ?thesis using len by auto
qed

section \<open>The scenario of test T1\<close>

text \<open>
  Claim C8. For the items A (weight 1, value 1), B (weight 2, value 6), C (weight 5,
  value 18), D (weight 6, value 22), in that order, and capacity 7, the solver returns
  \<open>bestValue = 24\<close>, and the values of the items whose ids are in \<open>chosenIds\<close> sum
  to 24.
\<close>

theorem test_T1_best_value_24:
  "\<exists>sol. solveKnapsack items1 7 = Inr sol \<and> bestValue sol = Num 24 \<and>
     sum_val (chosen_items items1 (chosenIds sol)) = 24"
proof -
  obtain sol where sol: "solveKnapsack items1 7 = Inr sol" "bestValue sol = Num 24"
    "chosenIds sol = {''b'', ''c''}"
    using solve_items1 by simp
  have "sum_val (chosen_items items1 {''b'', ''c''}) = 24"
    by (simp add: chosen_items_def sum_val_def items1_def)
  with sol show ?thesis by simp
qed

section \<open>No error, every access in bounds\<close>

text \<open>
  The list \<open>visited\<close> is the trace of \<open>reconstruct\<close>: the loop pushes the id of
  item \<open>i\<close> exactly at the visited \<open>(i, c)\<close> where the two cells it reads differ.
\<close>

lemma reconstruct_visited:
  "snd (reconstruct items dp i c chosen) =
     chosen @ map (\<lambda>(j, c'). ident (items ! (j - 1)))
       (filter (\<lambda>(j, c'). js_neq (get_at (dp ! j) c') (get_at (dp ! (j - 1)) c'))
          (visited items dp i c))"
  by (induction i arbitrary: c chosen) simp_all

lemma visited_bounds:
  assumes w: "\<forall>y\<in>set items. 0 \<le> weight y" and cap: "capacity \<le> 2 ^ 53"
  shows "i \<le> length items \<Longrightarrow> 0 \<le> c \<Longrightarrow> c \<le> capacity \<Longrightarrow>
    (j, c') \<in> set (visited items (filled items capacity) i (Num c)) \<Longrightarrow>
    1 \<le> j \<and> j \<le> i \<and> (\<exists>k. c' = Num k \<and> 0 \<le> k \<and> k \<le> c)"
proof (induction i arbitrary: c)
  case 0
  then show ?case by simp
next
  case (Suc k)
  let ?T = "filled items capacity"
  show ?case
  proof (cases "(j, c') = (Suc k, Num c)")
    case True
    then show ?thesis using Suc.prems by simp
  next
    case False
    show ?thesis
    proof (cases "js_neq (get_at (?T ! Suc k) (Num c)) (get_at (?T ! k) (Num c))")
      case True
      then have fits: "weight (items ! k) \<le> c"
        using w cap Suc.prems(1-3) by (intro taken_fits[of items capacity k c]) simp_all
      have wk: "0 \<le> weight (items ! k)" using w Suc.prems(1) by simp
      have res: "js_sub (Num c) (weight (items ! k)) = Num (c - weight (items ! k))"
        using wk fits Suc.prems(3) cap by (rule residual_exact)
      have "(j, c') \<in> set (visited items ?T k (Num (c - weight (items ! k))))"
        using Suc.prems(4) False True res by auto
      then have "1 \<le> j \<and> j \<le> k \<and> (\<exists>m. c' = Num m \<and> 0 \<le> m \<and> m \<le> c - weight (items ! k))"
        using fits wk Suc.prems(1-3) by (intro Suc.IH) simp_all
      then show ?thesis using wk by auto
    next
      case nt: False
      then have "(j, c') \<in> set (visited items ?T k (Num c))"
        using Suc.prems(4) False by auto
      then have "1 \<le> j \<and> j \<le> k \<and> (\<exists>m. c' = Num m \<and> 0 \<le> m \<and> m \<le> c)"
        using Suc.prems(1-3) by (intro Suc.IH) simp_all
      then show ?thesis by auto
    qed
  qed
qed

text \<open>
  Claim C9 says that the solver raises no error for any input with capacity \<open>\<ge> 0\<close> and
  non-negative weights and values. At capacity \<open>2^32 - 1\<close> the row allocation
  \<^verbatim>\<open>Array(capacity + 1)\<close> raises a RangeError.
\<close>

theorem completes_with_all_accesses_in_bounds_counterexample:
  "nonneg_items tie_items \<and> solveKnapsack tie_items 4294967295 = Inl RangeError"
proof -
  have "solveKnapsack tie_items 4294967295 = Inl RangeError"
    by (rule solveKnapsack_Inl) (simp add: table_fits_def)
  then show ?thesis by (simp add: nonneg_items_def tie_items_def)
qed

text \<open>
  Claim C9 as amended. For every input with fewer than \<open>2^32 - 1\<close> items, capacity from
  0 to \<open>2^32 - 2\<close>, and non-negative weights and values, the solver returns a result, no
  exception. The table has \<open>n + 1\<close> rows of \<open>capacity + 1\<close> cells, each of them a number
  (a read outside a row during the fill phase would have left \<open>NaN\<close> or \<open>undefined\<close> in
  one); the read \<^verbatim>\<open>dp[i-1][c-w]\<close>, made under \<open>w \<le> c\<close>, has \<open>c - w \<ge> 0\<close> and hits a
  cell; every \<open>(i, c)\<close> at which the reconstruction loop reads \<^verbatim>\<open>dp[i][c]\<close> and
  \<^verbatim>\<open>dp[i-1][c]\<close> has \<open>1 \<le> i \<le> n\<close> and \<open>0 \<le> c \<le> capacity\<close>; and \<open>bestValue\<close> is a number.
\<close>

theorem completes_with_all_accesses_in_bounds:
  assumes "nonneg_items items" "0 \<le> capacity" "table_fits items capacity"
  shows "\<exists>sol. solveKnapsack items capacity = Inr sol \<and>
           length (table sol) = length items + 1 \<and>
           (\<forall>i. i \<le> length items \<longrightarrow> length (table sol ! i) = nat (capacity + 1)) \<and>
           (\<forall>i c. i \<le> length items \<and> 0 \<le> c \<and> c \<le> capacity \<longrightarrow>
              is_number (get_cell (table sol ! i) c)) \<and>
           (\<forall>i c. 1 \<le> i \<and> i \<le> length items \<and> 0 \<le> c \<and> c \<le> capacity \<and>
                  weight (items ! (i - 1)) \<le> c \<longrightarrow>
              0 \<le> c - weight (items ! (i - 1)) \<and>
              is_number (get_at (table sol ! (i - 1)) (js_sub (Num c) (weight (items ! (i - 1)))))) \<and>
           (\<forall>i c. (i, c) \<in> set (visited items (table sol) (length items) (Num capacity)) \<longrightarrow>
              1 \<le> i \<and> i \<le> length items \<and> (\<exists>k. c = Num k \<and> 0 \<le> k \<and> k \<le> capacity)) \<and>
           is_number (bestValue sol)"
proof -
  let ?T = "filled items capacity"
  have w: "\<forall>y\<in>set items. 0 \<le> weight y" using assms(1) by (simp add: nonneg_items_def)
  have cap: "capacity \<le> 2 ^ 53" using assms(3) by (rule table_fits_small)
  have cells: "is_number (get_cell (?T ! i) c)"
    if "i \<le> length items" "0 \<le> c" "c \<le> capacity" for i c
    using filled_cellval[OF w cap that] by (simp add: cellval_number)
  have guard: "0 \<le> c - weight (items ! (i - 1)) \<and>
      is_number (get_at (?T ! (i - 1)) (js_sub (Num c) (weight (items ! (i - 1)))))"
    if "1 \<le> i" "i \<le> length items" "0 \<le> c" "c \<le> capacity" "weight (items ! (i - 1)) \<le> c" for i c
  proof -
    have nn: "0 \<le> weight (items ! (i - 1))" using w that(1,2) by simp
    have res: "js_sub (Num c) (weight (items ! (i - 1))) = Num (c - weight (items ! (i - 1)))"
      using nn that(5,4) cap by (rule residual_exact)
    have "is_number (get_cell (?T ! (i - 1)) (c - weight (items ! (i - 1))))"
    proof (rule cells)
      show "i - 1 \<le> length items" using that(2) by simp
      show "0 \<le> c - weight (items ! (i - 1))" using that(5) by simp
      show "c - weight (items ! (i - 1)) \<le> capacity" using nn that(4) by simp
    qed
    then show ?thesis using that(5) res by simp
  qed
  have walk: "1 \<le> i \<and> i \<le> length items \<and> (\<exists>k. c = Num k \<and> 0 \<le> k \<and> k \<le> capacity)"
    if "(i, c) \<in> set (visited items ?T (length items) (Num capacity))" for i c
    using visited_bounds[OF w cap _ assms(2) _ that] by simp
  show ?thesis
    using assms(2,3) cells guard walk
    by (simp add: solveKnapsack_Inr filled_length filled_row_length del: js_sub.simps)
qed

theorem completes_with_all_accesses_in_bounds_witness:
  "\<exists>sol. solveKnapsack items1 7 = Inr sol \<and> length (table sol) = 5 \<and>
     length (table sol ! 4) = 8 \<and> is_number (get_cell (table sol ! 4) 7) \<and>
     is_number (get_at (table sol ! 3) (js_sub (Num 7) (weight (items1 ! 3)))) \<and>
     is_number (bestValue sol)"
proof -
  have len: "length items1 = 4" by (simp add: items1_def)
  have w4: "weight (items1 ! 3) = 6" by (simp add: items1_def)
  obtain sol where sol: "solveKnapsack items1 7 = Inr sol"
    "length (table sol) = length items1 + 1"
    "\<forall>i. i \<le> length items1 \<longrightarrow> length (table sol ! i) = nat (7 + 1)"
    "\<forall>i c. i \<le> length items1 \<and> 0 \<le> c \<and> c \<le> 7 \<longrightarrow> is_number (get_cell (table sol ! i) c)"
    "\<forall>i c. 1 \<le> i \<and> i \<le> length items1 \<and> 0 \<le> c \<and> c \<le> 7 \<and> weight (items1 ! (i - 1)) \<le> c \<longrightarrow>
              0 \<le> c - weight (items1 ! (i - 1)) \<and>
              is_number (get_at (table sol ! (i - 1)) (js_sub (Num c) (weight (items1 ! (i - 1)))))"
    "is_number (bestValue sol)"
    using completes_with_all_accesses_in_bounds[of items1 7] items1_ok(1) items1_fits(1)
    by (auto simp del: js_sub.simps)
  have "is_number (get_at (table sol ! (4 - 1)) (js_sub (Num 7) (weight (items1 ! (4 - 1)))))"
    using sol(5)[rule_format, of 4 7] len w4 by (simp del: js_sub.simps)
  then show ?thesis using sol(1,2,3,4,6) len by (auto simp del: js_sub.simps)
qed

section \<open>No validation of the input\<close>

lemma picked_ids: "i \<le> length items \<Longrightarrow> ident ` set (picked items dp i c) \<subseteq> ident ` set items"
proof -
  assume "i \<le> length items"
  then have "subseq (picked items dp i c) (take i items)" by (rule picked_subseq)
  then have "set (picked items dp i c) \<subseteq> set (take i items)" by (rule subseq_set_subset)
  then show ?thesis by (auto dest: in_set_takeD)
qed

text \<open>
  Claim C10 says that inputs violating the preconditions always produce a result rather
  than an error, and that no input is rejected for its capacity or for the size of its
  table. An item of negative weight with capacity \<open>-2\<close>, or with capacity \<open>2^32 - 1\<close>,
  produces no result: the table allocation raises a RangeError.
\<close>

theorem no_precondition_validation_counterexample:
  "solveKnapsack [negative_item] (- 2) = Inl RangeError \<and>
   solveKnapsack [negative_item] 4294967295 = Inl RangeError"
proof
  show "solveKnapsack [negative_item] (- 2) = Inl RangeError"
    by (rule solveKnapsack_Inl) simp
  show "solveKnapsack [negative_item] 4294967295 = Inl RangeError"
    by (rule solveKnapsack_Inl) (simp add: table_fits_def)
qed

text \<open>
  Claim C10 as amended. The solver validates nothing itself, and nothing about the items:
  for every list of fewer than \<open>2^32 - 1\<close> items, whatever their weights, values and
  ids, and every capacity from \<open>-1\<close> to \<open>2^32 - 2\<close>, it returns a result: a table of
  \<open>n + 1\<close> rows of \<open>capacity + 1\<close> cells whose row 0 is all zeros and whose every other
  cell is what the recurrence of the fill phase makes of the row above (\<open>NaN\<close> where a
  read misses the row), \<open>bestValue = table[n][capacity]\<close>, and as \<open>chosenIds\<close> what the
  reconstruction loop collects, all of them ids of items. In every other case (capacity
  \<open>\<le> -2\<close> or \<open>\<ge> 2^32 - 1\<close>, or \<open>2^32 - 1\<close> items) the call ends in the runtime's
  RangeError of the table allocation, and in no other error.
\<close>

theorem no_precondition_validation:
  "(solveKnapsack items capacity = Inl RangeError \<longleftrightarrow>
      \<not> (table_fits items capacity \<and> - 1 \<le> capacity)) \<and>
   (table_fits items capacity \<and> - 1 \<le> capacity \<longrightarrow>
      (\<exists>sol. solveKnapsack items capacity = Inr sol \<and>
         length (table sol) = length items + 1 \<and>
         (\<forall>i. i \<le> length items \<longrightarrow> length (table sol ! i) = nat (capacity + 1)) \<and>
         (\<forall>c. 0 \<le> c \<and> c \<le> capacity \<longrightarrow> get_cell (table sol ! 0) c = Num 0) \<and>
         (\<forall>i c. 1 \<le> i \<and> i \<le> length items \<and> 0 \<le> c \<and> c \<le> capacity \<longrightarrow>
            get_cell (table sol ! i) c =
              (if weight (items ! (i - 1)) \<le> c
               then js_max (get_cell (table sol ! (i - 1)) c)
                      (js_add (get_at (table sol ! (i - 1))
                                 (js_sub (Num c) (weight (items ! (i - 1)))))
                         (val (items ! (i - 1))))
               else get_cell (table sol ! (i - 1)) c)) \<and>
         bestValue sol = get_cell (table sol ! length items) capacity \<and>
         chosenIds sol =
           set (snd (reconstruct items (table sol) (length items) (Num capacity) [])) \<and>
         chosenIds sol \<subseteq> ident ` set items))"
proof (intro conjI impI)
  show "solveKnapsack items capacity = Inl RangeError \<longleftrightarrow>
      \<not> (table_fits items capacity \<and> - 1 \<le> capacity)"
  proof
    assume "solveKnapsack items capacity = Inl RangeError"
    then show "\<not> (table_fits items capacity \<and> - 1 \<le> capacity)"
      using solveKnapsack_Inr[of items capacity] by auto
  next
    assume "\<not> (table_fits items capacity \<and> - 1 \<le> capacity)"
    then show "solveKnapsack items capacity = Inl RangeError" by (rule solveKnapsack_Inl)
  qed
next
  let ?T = "filled items capacity"
  let ?sol = "\<lparr> bestValue = get_cell (?T ! length items) capacity,
                chosenIds = ident ` set (picked items ?T (length items) (Num capacity)),
                table = ?T \<rparr>"
  assume ok: "table_fits items capacity \<and> - 1 \<le> capacity"
  then have sol: "solveKnapsack items capacity = Inr ?sol" by (simp add: solveKnapsack_Inr)
  have row0: "\<forall>c. 0 \<le> c \<and> c \<le> capacity \<longrightarrow> get_cell (?T ! 0) c = Num 0"
    by (simp add: filled_row0 get_cell_def)
  have rec: "\<forall>i c. 1 \<le> i \<and> i \<le> length items \<and> 0 \<le> c \<and> c \<le> capacity \<longrightarrow>
            get_cell (?T ! i) c =
              (if weight (items ! (i - 1)) \<le> c
               then js_max (get_cell (?T ! (i - 1)) c)
                      (js_add (get_at (?T ! (i - 1)) (js_sub (Num c) (weight (items ! (i - 1)))))
                         (val (items ! (i - 1))))
               else get_cell (?T ! (i - 1)) c)"
    using filled_cell_rec[of _ items _ capacity] unfolding new_cell_def by blast
  have chosen: "ident ` set (picked items ?T (length items) (Num capacity)) =
      set (snd (reconstruct items ?T (length items) (Num capacity) []))"
    by (simp add: reconstruct_picked)
  have sub: "ident ` set (picked items ?T (length items) (Num capacity)) \<subseteq> ident ` set items"
    by (rule picked_ids) simp
  have lens: "\<forall>i. i \<le> length items \<longrightarrow> length (?T ! i) = nat (capacity + 1)"
    by (simp add: filled_row_length)
  have sel: "table ?sol = ?T" "bestValue ?sol = get_cell (?T ! length items) capacity"
    "chosenIds ?sol = ident ` set (picked items ?T (length items) (Num capacity))"
    by simp_all
  show "\<exists>sol. solveKnapsack items capacity = Inr sol \<and>
         length (table sol) = length items + 1 \<and>
         (\<forall>i. i \<le> length items \<longrightarrow> length (table sol ! i) = nat (capacity + 1)) \<and>
         (\<forall>c. 0 \<le> c \<and> c \<le> capacity \<longrightarrow> get_cell (table sol ! 0) c = Num 0) \<and>
         (\<forall>i c. 1 \<le> i \<and> i \<le> length items \<and> 0 \<le> c \<and> c \<le> capacity \<longrightarrow>
            get_cell (table sol ! i) c =
              (if weight (items ! (i - 1)) \<le> c
               then js_max (get_cell (table sol ! (i - 1)) c)
                      (js_add (get_at (table sol ! (i - 1))
                                 (js_sub (Num c) (weight (items ! (i - 1)))))
                         (val (items ! (i - 1))))
               else get_cell (table sol ! (i - 1)) c)) \<and>
         bestValue sol = get_cell (table sol ! length items) capacity \<and>
         chosenIds sol =
           set (snd (reconstruct items (table sol) (length items) (Num capacity) [])) \<and>
         chosenIds sol \<subseteq> ident ` set items"
    by (rule exI[of _ ?sol], unfold sel, intro conjI sol filled_length lens row0 rec refl chosen sub)
qed

theorem no_precondition_validation_witness:
  "solveKnapsack [negative_item, negative_item] 2 =
     Inr \<lparr> bestValue = NaN, chosenIds = {''z''},
           table = [[Num 0, Num 0, Num 0], [Num 5, Num 5, NaN], [Num 10, NaN, NaN]] \<rparr> \<and>
   solveKnapsack [negative_item, negative_item] (- 1) =
     Inr \<lparr> bestValue = Undefined, chosenIds = {}, table = [[], [], []] \<rparr>"
proof -
  have fits: "table_fits [negative_item, negative_item] 2 \<and> - 1 \<le> (2::int)"
    "table_fits [negative_item, negative_item] (- 1) \<and> - 1 \<le> (- 1::int)"
    by (simp_all add: table_fits_def)
  have "\<exists>sol. solveKnapsack [negative_item, negative_item] 2 = Inr sol"
    using no_precondition_validation[of "[negative_item, negative_item]" 2, THEN conjunct2,
      THEN mp, OF fits(1)] by blast
  moreover have "solveKnapsack [negative_item, negative_item] 2 =
     Inr \<lparr> bestValue = NaN, chosenIds = {''z''},
           table = [[Num 0, Num 0, Num 0], [Num 5, Num 5, NaN], [Num 10, NaN, NaN]] \<rparr>"
    by code_simp
  moreover have "solveKnapsack [negative_item, negative_item] (- 1) =
     Inr \<lparr> bestValue = Undefined, chosenIds = {}, table = [[], [], []] \<rparr>"
    by code_simp
  ultimately show ?thesis by simp
qed

end
